theory Spec2Isabelle
  imports Complex_Main "HOL-Library.Word"
begin

unbundle bit_operations_syntax

section \<open>Numbers and buffers\<close>

text \<open>
  The program is src/utils/imageProcessor.ts (class ImageProcessor). The integer coercions
  of the language are written out: the 32-bit coercion of the bitwise operators, Math.round,
  and the clamped 8-bit store of a Uint8ClampedArray. In the pipeline and its stages
  JavaScript numbers are modelled as exact reals: IEEE rounding, overflow to Infinity and
  NaN are not modelled there, and the places where the source could produce them are named
  where they occur. Two functions are modelled over the doubles themselves, because a
  value that the doubles round is stated of them: the resampler (its destination size) and
  the bilateral filter (its average). There the numbers are the type \<open>number\<close>, and the
  operations that round are a parameter, the record \<open>arithmetic\<close>, of which nothing is
  assumed.
\<close>

type_synonym sample = "8 word"

record ImageData =
  width :: nat
  height :: nat
  data :: "sample list"

datatype error = ContextUnavailable | IndexSizeError | InvalidStateError | RangeError

definition valid :: "ImageData \<Rightarrow> bool" where
  \<comment> \<open>what every ImageData object of the browser satisfies\<close>
  "valid img \<longleftrightarrow>
     0 < width img \<and> 0 < height img \<and> length (data img) = 4 * width img * height img"

definition newImageData :: "sample list \<Rightarrow> nat \<Rightarrow> nat \<Rightarrow> error + ImageData" where
  \<comment> \<open>\<open>new ImageData(data, sw, sh)\<close>: the constructor of the HTML Standard rejects a buffer
      whose length is not a non-zero multiple of four or does not match the dimensions.\<close>
  "newImageData d sw sh =
     (if length d = 0 \<or> length d mod 4 \<noteq> 0 then Inl InvalidStateError
      else if sw = 0 \<or> sh = 0 then Inl IndexSizeError
      else if (length d div 4) mod sw \<noteq> 0 then Inl IndexSizeError
      else if (length d div 4) div sw \<noteq> sh then Inl IndexSizeError
      else Inr \<lparr>width = sw, height = sh, data = d\<rparr>)"

definition toInt32 :: "int \<Rightarrow> int" where
  \<comment> \<open>ToInt32 of an integral number: reduction modulo 2^32 into [-2^31, 2^31)\<close>
  "toInt32 n = (n + 2 ^ 31) mod 2 ^ 32 - 2 ^ 31"

definition js_or :: "int \<Rightarrow> int \<Rightarrow> int" where
  \<comment> \<open>the operator \<open>|\<close>: both operands are coerced to 32-bit signed integers\<close>
  "js_or a b = toInt32 a OR toInt32 b"

definition js_round :: "real \<Rightarrow> int" where
  \<comment> \<open>Math.round: the nearest integer, a tie going up\<close>
  "js_round x = \<lfloor>x + 1 / 2\<rfloor>"

definition js_fmod :: "real \<Rightarrow> real \<Rightarrow> real" where
  \<comment> \<open>the operator \<open>%\<close> on numbers: the remainder of the truncated quotient\<close>
  "js_fmod x y =
     x - y * real_of_int (if 0 \<le> x / y then \<lfloor>x / y\<rfloor> else \<lceil>x / y\<rceil>)"

definition js_pow :: "real \<Rightarrow> real \<Rightarrow> real" where
  \<comment> \<open>Math.pow on a base \<open>x \<ge> 0\<close>, the only bases the program passes; \<open>Math.pow(x, 0)\<close> is 1
      also at \<open>x = 0\<close>. The infinite value of \<open>Math.pow(0, y)\<close> at \<open>y < 0\<close> is handled by
      the caller.\<close>
  "js_pow x y = (if y = 0 then 1 else x powr y)"

definition roundHalfEven :: "real \<Rightarrow> int" where
  "roundHalfEven x =
     (let f = \<lfloor>x\<rfloor>; r = x - real_of_int f
      in if r < 1 / 2 then f else if 1 / 2 < r then f + 1 else if even f then f else f + 1)"

definition toUint8Clamp :: "real \<Rightarrow> sample" where
  \<comment> \<open>storing a number into a Uint8ClampedArray\<close>
  "toUint8Clamp x =
     (if x \<le> 0 then 0 else if 255 \<le> x then 255 else word_of_int (roundHalfEven x))"

definition val :: "sample list \<Rightarrow> nat \<Rightarrow> real" where
  \<comment> \<open>reading \<open>data[i]\<close> as a number. Out of range the source reads \<open>undefined\<close>; \<open>!\<close> is
      unspecified there, and no theorem below depends on such a read.\<close>
  "val d i = real (unat (d ! i))"

definition pixelOffsets :: "sample list \<Rightarrow> nat list" where
  \<comment> \<open>\<open>for (let i = 0; i < data.length; i += 4)\<close>\<close>
  "pixelOffsets d = map (\<lambda>p. 4 * p) [0..<(length d + 3) div 4]"

definition coords :: "nat \<Rightarrow> nat \<Rightarrow> (nat \<times> nat) list" where
  \<comment> \<open>\<open>for (y = 0; y < height; y++) for (x = 0; x < width; x++)\<close>, as pairs \<open>(y, x)\<close>\<close>
  "coords w h = concat (map (\<lambda>y. map (\<lambda>x. (y, x)) [0..<w]) [0..<h])"

section \<open>Doubles\<close>

text \<open>
  The values of a double: \<open>Finite x\<close> is the double of value \<open>x\<close> (\<open>Finite 0\<close> is \<open>+0\<close>) and
  \<open>NegZero\<close> is \<open>-0\<close>. The arithmetic operators of the language and the library functions
  Math.abs and Math.exp are the fields of an \<open>arithmetic\<close>; the program runs with the one
  of its engine.
\<close>

datatype number = Finite real | NegZero | PosInfinity | NegInfinity | NaN

record arithmetic =
  fadd :: "number \<Rightarrow> number \<Rightarrow> number"
  fsub :: "number \<Rightarrow> number \<Rightarrow> number"
  fmul :: "number \<Rightarrow> number \<Rightarrow> number"
  fdiv :: "number \<Rightarrow> number \<Rightarrow> number"
  fneg :: "number \<Rightarrow> number"
  fabs :: "number \<Rightarrow> number"
  fexp :: "number \<Rightarrow> number"

definition positive :: "number \<Rightarrow> bool" where
  \<comment> \<open>the test \<open>x > 0\<close>, false of NaN\<close>
  "positive x = (case x of Finite v \<Rightarrow> 0 < v | PosInfinity \<Rightarrow> True | _ \<Rightarrow> False)"

definition storeClamped :: "number \<Rightarrow> sample" where
  \<comment> \<open>storing a double into a Uint8ClampedArray: NaN is stored as 0\<close>
  "storeClamped x = (case x of Finite v \<Rightarrow> toUint8Clamp v | PosInfinity \<Rightarrow> 255 | _ \<Rightarrow> 0)"


section \<open>Kernel generator and separable Gaussian blur\<close>

definition generateGaussianKernel :: "real \<Rightarrow> real list" where
  "generateGaussianKernel radius =
    (let size = max 3 (js_or \<lceil>radius * 6\<rceil> 1);
         sigma = radius / 3;
         twoSigmaSquare = 2 * sigma * sigma;
         center = size div 2;
         kern = map (\<lambda>i. exp (- (real_of_int (int i - center) * real_of_int (int i - center))
                                / twoSigmaSquare))
                    [0..<nat size];
         sum = foldl (+) 0 kern
     in map (\<lambda>k. k / sum) kern)"

definition horizontalTaps ::
  "real list \<Rightarrow> sample list \<Rightarrow> nat \<Rightarrow> nat \<Rightarrow> nat \<Rightarrow> nat \<Rightarrow> real \<times> real" where
  \<comment> \<open>the inner loop over \<open>k\<close> of the horizontal pass: \<open>(sum, weightSum)\<close>\<close>
  "horizontalTaps kern d w y x c =
     fold (\<lambda>k (sum, weightSum).
             let px = int x + int k - int (length kern div 2)
             in if 0 \<le> px \<and> px < int w
                then (sum + val d ((y * w + nat px) * 4 + c) * kern ! k, weightSum + kern ! k)
                else (sum, weightSum))
          [0..<length kern] (0, 0)"

definition verticalTaps ::
  "real list \<Rightarrow> sample list \<Rightarrow> nat \<Rightarrow> nat \<Rightarrow> nat \<Rightarrow> nat \<Rightarrow> nat \<Rightarrow> real \<times> real" where
  "verticalTaps kern t w h y x c =
     fold (\<lambda>k (sum, weightSum).
             let py = int y + int k - int (length kern div 2)
             in if 0 \<le> py \<and> py < int h
                then (sum + val t ((nat py * w + x) * 4 + c) * kern ! k, weightSum + kern ! k)
                else (sum, weightSum))
          [0..<length kern] (0, 0)"

definition horizontalPass :: "real list \<Rightarrow> sample list \<Rightarrow> nat \<Rightarrow> nat \<Rightarrow> sample list" where
  \<comment> \<open>writes \<open>tempData\<close>, which starts as a copy of \<open>data\<close>\<close>
  "horizontalPass kern d w h =
     fold (\<lambda>(y, x) temp.
             (fold (\<lambda>c t. let (sum, weightSum) = horizontalTaps kern d w y x c
                          in t[(y * w + x) * 4 + c := toUint8Clamp (sum / weightSum)])
                   [0..<3] temp)
               [(y * w + x) * 4 + 3 := d ! ((y * w + x) * 4 + 3)])
          (coords w h) d"

definition verticalPass ::
  "real list \<Rightarrow> sample list \<Rightarrow> sample list \<Rightarrow> nat \<Rightarrow> nat \<Rightarrow> sample list" where
  \<comment> \<open>reads \<open>tempData\<close> and writes \<open>outputData\<close>, which starts as a copy of \<open>data\<close>\<close>
  "verticalPass kern t d w h =
     fold (\<lambda>(y, x) out.
             (fold (\<lambda>c b. let (sum, weightSum) = verticalTaps kern t w h y x c
                          in b[(y * w + x) * 4 + c := toUint8Clamp (sum / weightSum)])
                   [0..<3] out)
               [(y * w + x) * 4 + 3 := t ! ((y * w + x) * 4 + 3)])
          (coords w h) d"

definition gaussianBlur :: "ImageData \<Rightarrow> nat \<Rightarrow> nat \<Rightarrow> real \<Rightarrow> error + ImageData" where
  "gaussianBlur imageData w h radius =
     (let d = data imageData;
          kern = generateGaussianKernel radius;
          tempData = horizontalPass kern d w h;
          outputData = verticalPass kern tempData d w h
      in newImageData outputData w h)"

section \<open>Unsharp mask\<close>

definition unsharpSample :: "real \<Rightarrow> real \<Rightarrow> real \<Rightarrow> real \<Rightarrow> sample" where
  "unsharpSample original blurredValue amount threshold =
     (let diff = original - blurredValue
      in if \<bar>diff\<bar> > threshold
         then toUint8Clamp (min 255 (max 0 (original + diff * amount)))
         else toUint8Clamp original)"

definition applyUnsharpMask ::
  "ImageData \<Rightarrow> nat \<Rightarrow> nat \<Rightarrow> real \<Rightarrow> real \<Rightarrow> real \<Rightarrow> error + ImageData" where
  "applyUnsharpMask imageData w h amount radius threshold =
     (let d = data imageData
      in case gaussianBlur imageData w h radius of
           Inl e \<Rightarrow> Inl e
         | Inr blurred \<Rightarrow>
             newImageData
               (fold (\<lambda>i out.
                        (fold (\<lambda>c b. b[i + c := unsharpSample (val d (i + c))
                                                   (val (data blurred) (i + c)) amount threshold])
                              [0..<3] out)
                          [i + 3 := d ! (i + 3)])
                     (pixelOffsets d) d)
               w h)"

section \<open>Luminance histogram\<close>

text \<open>
  The tone mapper and the local contrast enhancer build a 256-bin histogram of the rounded
  luminance and its cumulative distribution with the same statements.
\<close>

definition luminance :: "sample list \<Rightarrow> nat \<Rightarrow> nat" where
  "luminance d idx =
     nat (js_round (0.299 * val d idx + 0.587 * val d (idx + 1) + 0.114 * val d (idx + 2)))"

definition luminanceHistogram :: "sample list \<Rightarrow> nat list \<Rightarrow> real list" where
  \<comment> \<open>\<open>histogram[luminance]++\<close> for the pixels at the offsets \<open>idxs\<close>\<close>
  "luminanceHistogram d idxs =
     fold (\<lambda>idx histogram. histogram[luminance d idx := histogram ! luminance d idx + 1])
          idxs (replicate 256 0)"

definition cumulative :: "real list \<Rightarrow> real list" where
  \<comment> \<open>\<open>cdf[0] = histogram[0]; cdf[i] = cdf[i - 1] + histogram[i]\<close>\<close>
  "cumulative histogram =
     fold (\<lambda>i cdf. cdf[i := cdf ! (i - 1) + histogram ! i]) [1..<256]
          ((replicate 256 0)[0 := histogram ! 0])"

section \<open>Tone mapper\<close>

definition applySCurve :: "real \<Rightarrow> real \<Rightarrow> real" where
  "applySCurve value strength =
     (if strength = 0 then value
      else let factor = strength * 2
           in if factor > 0
              then 0.5 + tanh (factor * (value - 0.5)) / (2 * tanh (factor / 2))
              else 0.5 + (value - 0.5) / (1 + \<bar>factor\<bar>))"

definition toneSample :: "real \<Rightarrow> real \<Rightarrow> real \<Rightarrow> sample" where
  \<comment> \<open>the body of the loop over \<open>c\<close>: the sample stored for the value read. Where the
      base is 0 and the exponent negative, \<open>Math.pow\<close> is Infinity and \<open>Math.min\<close> stores 255.\<close>
  "toneSample brightness contrast v =
     (let normalized = v / 255;
          contrasted = applySCurve normalized (contrast / 100)
      in if contrasted = 0 \<and> 1 + brightness / 100 < 0 then 255
         else let brightened = js_pow contrasted (1 + brightness / 100) * 255
              in toUint8Clamp (min 255 (max 0 brightened)))"

definition applyAdvancedToneMapping :: "ImageData \<Rightarrow> real \<Rightarrow> real \<Rightarrow> ImageData" where
  \<comment> \<open>in place. The histogram, the cumulative distribution and \<open>totalPixels\<close> are
      computed as in the source, and never read.\<close>
  "applyAdvancedToneMapping imageData brightness contrast =
     (let histogram = luminanceHistogram (data imageData) (pixelOffsets (data imageData));
          cdf = cumulative histogram;
          totalPixels = real (length (data imageData)) / 4
      in imageData\<lparr>data :=
           fold (\<lambda>i d. fold (\<lambda>c d. d[i + c := toneSample brightness contrast (val d (i + c))])
                             [0..<3] d)
                (pixelOffsets (data imageData)) (data imageData)\<rparr>)"

section \<open>Saturation adjuster\<close>

definition hslAdjust :: "real \<Rightarrow> real \<Rightarrow> real \<Rightarrow> real \<Rightarrow> real \<times> real \<times> real" where
  \<comment> \<open>for a pixel with \<open>diff \<noteq> 0\<close>: the three numbers \<open>(rPrime + m) * 255\<close>,
      \<open>(gPrime + m) * 255\<close>, \<open>(bPrime + m) * 255\<close>\<close>
  "hslAdjust factor r g b =
     (let mx = max r (max g b);
          mn = min r (min g b);
          diff = mx - mn;
          sum = mx + mn;
          l = sum / 2;
          s = (if l > 0.5 then diff / (2 - sum) else diff / sum);
          h = (if mx = r then ((g - b) / diff + (if g < b then 6 else 0)) / 6
               else if mx = g then ((b - r) / diff + 2) / 6
               else if mx = b then ((r - g) / diff + 4) / 6
               else 0);
          newS = min 1 (max 0 (s * factor));
          c = (1 - \<bar>2 * l - 1\<bar>) * newS;
          x = c * (1 - \<bar>js_fmod (h * 6) 2 - 1\<bar>);
          m = l - c / 2;
          hSector = \<lfloor>h * 6\<rfloor>;
          (rPrime, gPrime, bPrime) =
            (if hSector = 0 then (c, x, 0)
             else if hSector = 1 then (x, c, 0)
             else if hSector = 2 then (0, c, x)
             else if hSector = 3 then (0, x, c)
             else if hSector = 4 then (x, 0, c)
             else if hSector = 5 then (c, 0, x)
             else (0, 0, 0))
      in ((rPrime + m) * 255, (gPrime + m) * 255, (bPrime + m) * 255))"

definition saturatePixel :: "real \<Rightarrow> nat \<Rightarrow> sample list \<Rightarrow> sample list" where
  \<comment> \<open>one iteration of the loop over \<open>i\<close>\<close>
  "saturatePixel factor i d =
     (let r = val d i / 255;
          g = val d (i + 1) / 255;
          b = val d (i + 2) / 255;
          diff = max r (max g b) - min r (min g b)
      in if diff = 0 then d
         else let (r', g', b') = hslAdjust factor r g b
              in d[i := toUint8Clamp (min 255 (max 0 r')),
                   i + 1 := toUint8Clamp (min 255 (max 0 g')),
                   i + 2 := toUint8Clamp (min 255 (max 0 b'))])"

definition applyAdvancedSaturation :: "ImageData \<Rightarrow> real \<Rightarrow> ImageData" where
  "applyAdvancedSaturation imageData saturation =
     (let factor = (saturation + 100) / 100
      in imageData\<lparr>data :=
           fold (saturatePixel factor) (pixelOffsets (data imageData)) (data imageData)\<rparr>)"

section \<open>Bilateral filter\<close>

definition wr :: "sample list \<Rightarrow> int \<Rightarrow> sample \<Rightarrow> sample list" where
  \<comment> \<open>a store at a computed index: a typed array ignores a store outside its range\<close>
  "wr d i v = (if 0 \<le> i then d[nat i := v] else d)"

definition bilateralWeight :: "real \<Rightarrow> real \<Rightarrow> int \<Rightarrow> int \<Rightarrow> real \<Rightarrow> real \<Rightarrow> real" where
  "bilateralWeight spatialSigma intensitySigma dx dy centerValue pixelValue =
     (let spatialDistance = real_of_int (dx * dx + dy * dy);
          spatialWeight = exp (- spatialDistance / (2 * spatialSigma * spatialSigma));
          intensityDistance = \<bar>centerValue - pixelValue\<bar>;
          intensityWeight =
            exp (- intensityDistance * intensityDistance / (2 * intensitySigma * intensitySigma))
      in spatialWeight * intensityWeight)"

definition bilateralSums ::
  "sample list \<Rightarrow> nat \<Rightarrow> real \<Rightarrow> real \<Rightarrow> int \<Rightarrow> int \<Rightarrow> int \<Rightarrow> nat \<Rightarrow> real \<times> real" where
  \<comment> \<open>the loops over \<open>dy\<close> and \<open>dx\<close>: \<open>(sum, weightSum)\<close>\<close>
  "bilateralSums d w spatialSigma intensitySigma radius y x c =
     (let centerValue = val d (nat ((y * int w + x) * 4 + int c))
      in fold (\<lambda>dy acc.
                 fold (\<lambda>dx (sum, weightSum).
                         let pixelValue = val d (nat (((y + dy) * int w + (x + dx)) * 4 + int c));
                             weight = bilateralWeight spatialSigma intensitySigma dx dy
                                        centerValue pixelValue
                         in (sum + pixelValue * weight, weightSum + weight))
                      [- radius..radius] acc)
              [- radius..radius] (0, 0))"

definition bilateralPixel ::
  "sample list \<Rightarrow> nat \<Rightarrow> real \<Rightarrow> real \<Rightarrow> int \<Rightarrow> int \<times> int \<Rightarrow> sample list \<Rightarrow> sample list" where
  "bilateralPixel d w spatialSigma intensitySigma radius = (\<lambda>(y, x) out.
     wr (fold (\<lambda>c b. let centerIdx = (y * int w + x) * 4 + int c;
                         (sum, weightSum) = bilateralSums d w spatialSigma intensitySigma radius y x c
                     in wr b centerIdx (if weightSum > 0 then toUint8Clamp (sum / weightSum)
                                        else d ! nat centerIdx))
              [0..<3] out)
        ((y * int w + x) * 4 + 3) (d ! nat ((y * int w + x) * 4 + 3)))"

definition applyBilateralFilter ::
  "ImageData \<Rightarrow> nat \<Rightarrow> nat \<Rightarrow> real \<Rightarrow> real \<Rightarrow> error + ImageData" where
  "applyBilateralFilter imageData w h spatialSigma intensitySigma =
     (let d = data imageData;
          radius = \<lceil>spatialSigma * 2\<rceil>;
          outputData =
            fold (bilateralPixel d w spatialSigma intensitySigma radius)
                 (concat (map (\<lambda>y. map (\<lambda>x. (y, x)) [radius..int w - radius - 1])
                              [radius..int h - radius - 1]))
                 d
      in newImageData outputData w h)"

text \<open>
  The same filter over the doubles. A sample read from the buffer is a non-negative
  integer, and \<open>dx * dx + dy * dy\<close> is an integer that the doubles hold exactly.
\<close>

definition bilateralWeightD ::
  "arithmetic \<Rightarrow> real \<Rightarrow> real \<Rightarrow> int \<Rightarrow> int \<Rightarrow> number \<Rightarrow> number \<Rightarrow> number" where
  "bilateralWeightD ar spatialSigma intensitySigma dx dy centerValue pixelValue =
     (let spatialDistance = Finite (real_of_int (dx * dx + dy * dy));
          spatialWeight =
            fexp ar (fdiv ar (fneg ar spatialDistance)
                       (fmul ar (fmul ar (Finite 2) (Finite spatialSigma)) (Finite spatialSigma)));
          intensityDistance = fabs ar (fsub ar centerValue pixelValue);
          intensityWeight =
            fexp ar (fdiv ar (fmul ar (fneg ar intensityDistance) intensityDistance)
                       (fmul ar (fmul ar (Finite 2) (Finite intensitySigma)) (Finite intensitySigma)))
      in fmul ar spatialWeight intensityWeight)"

definition bilateralSumsD ::
  "arithmetic \<Rightarrow> sample list \<Rightarrow> nat \<Rightarrow> real \<Rightarrow> real \<Rightarrow> int \<Rightarrow> int \<Rightarrow> int \<Rightarrow> nat
     \<Rightarrow> number \<times> number" where
  \<comment> \<open>the loops over \<open>dy\<close> and \<open>dx\<close>: \<open>(sum, weightSum)\<close>\<close>
  "bilateralSumsD ar d w spatialSigma intensitySigma radius y x c =
     (let centerValue = Finite (val d (nat ((y * int w + x) * 4 + int c)))
      in fold (\<lambda>dy acc.
                 fold (\<lambda>dx (sum, weightSum).
                         let pixelValue =
                               Finite (val d (nat (((y + dy) * int w + (x + dx)) * 4 + int c)));
                             weight = bilateralWeightD ar spatialSigma intensitySigma dx dy
                                        centerValue pixelValue
                         in (fadd ar sum (fmul ar pixelValue weight), fadd ar weightSum weight))
                      [- radius..radius] acc)
              [- radius..radius] (Finite 0, Finite 0))"

definition bilateralPixelD ::
  "arithmetic \<Rightarrow> sample list \<Rightarrow> nat \<Rightarrow> real \<Rightarrow> real \<Rightarrow> int \<Rightarrow> int \<times> int
     \<Rightarrow> sample list \<Rightarrow> sample list" where
  "bilateralPixelD ar d w spatialSigma intensitySigma radius = (\<lambda>(y, x) out.
     wr (fold (\<lambda>c b. let centerIdx = (y * int w + x) * 4 + int c;
                         (sum, weightSum) =
                           bilateralSumsD ar d w spatialSigma intensitySigma radius y x c
                     in wr b centerIdx (if positive weightSum
                                        then storeClamped (fdiv ar sum weightSum)
                                        else d ! nat centerIdx))
              [0..<3] out)
        ((y * int w + x) * 4 + 3) (d ! nat ((y * int w + x) * 4 + 3)))"

definition applyBilateralFilterD ::
  "arithmetic \<Rightarrow> ImageData \<Rightarrow> nat \<Rightarrow> nat \<Rightarrow> real \<Rightarrow> real \<Rightarrow> error + ImageData" where
  "applyBilateralFilterD ar imageData w h spatialSigma intensitySigma =
     (let d = data imageData;
          radius = \<lceil>spatialSigma * 2\<rceil>;
          outputData =
            fold (bilateralPixelD ar d w spatialSigma intensitySigma radius)
                 (concat (map (\<lambda>y. map (\<lambda>x. (y, x)) [radius..int w - radius - 1])
                              [radius..int h - radius - 1]))
                 d
      in newImageData outputData w h)"

section \<open>Local contrast enhancer\<close>

definition tileIndices :: "nat \<Rightarrow> nat \<Rightarrow> nat \<Rightarrow> nat \<Rightarrow> nat \<Rightarrow> nat list" where
  \<comment> \<open>\<open>idx\<close> over \<open>for (y = by; y < endY; y++) for (x = bx; x < endX; x++)\<close>\<close>
  "tileIndices w bx by endX endY =
     concat (map (\<lambda>y. map (\<lambda>x. (y * w + x) * 4) [bx..<endX]) [by..<endY])"

definition clipHistogram :: "real \<Rightarrow> real list \<Rightarrow> real list \<times> real" where
  \<comment> \<open>contrast limiting: the capped histogram and \<open>excess\<close>\<close>
  "clipHistogram clipValue histogram =
     fold (\<lambda>i (hist, excess).
             if hist ! i > clipValue
             then (hist[i := clipValue], excess + (hist ! i - clipValue))
             else (hist, excess))
          [0..<256] (histogram, 0)"

definition redistributeExcess :: "real \<Rightarrow> real list \<Rightarrow> real list" where
  "redistributeExcess excess histogram =
     (let redistribute = excess / 256
      in fold (\<lambda>i hist. hist[i := hist ! i + redistribute]) [0..<256] histogram)"

definition tileCdf :: "sample list \<Rightarrow> nat list \<Rightarrow> real list" where
  \<comment> \<open>histogram, clip, redistribute, cumulate, for the tile with the pixel offsets \<open>idxs\<close>\<close>
  "tileCdf d idxs =
     (let histogram = luminanceHistogram d idxs;
          pixelCount = real (length idxs);
          clipValue = (3.0 * pixelCount) / 256;
          (clipped, excess) = clipHistogram clipValue histogram
      in cumulative (redistributeExcess excess clipped))"

definition equalizeTile :: "real list \<Rightarrow> nat list \<Rightarrow> sample list \<Rightarrow> sample list" where
  "equalizeTile cdf idxs d =
     fold (\<lambda>idx d. fold (\<lambda>c d. let newValue = (cdf ! unat (d ! (idx + c)) / real (length idxs)) * 255
                                in d[idx + c := toUint8Clamp (min 255 (max 0 newValue))])
                         [0..<3] d)
          idxs d"

definition applyCLAHE :: "ImageData \<Rightarrow> nat \<Rightarrow> nat \<Rightarrow> ImageData" where
  \<comment> \<open>in place, tile by tile, with \<open>blockSize = 64\<close> and \<open>clipLimit = 3.0\<close>\<close>
  "applyCLAHE imageData w h =
     imageData\<lparr>data :=
       fold (\<lambda>(by, bx) d.
               let idxs = tileIndices w bx by (min (bx + 64) w) (min (by + 64) h)
               in equalizeTile (tileCdf d idxs) idxs d)
            (concat (map (\<lambda>by. map (\<lambda>bx. (by, bx)) (map (\<lambda>k. 64 * k) [0..<(w + 63) div 64]))
                         (map (\<lambda>k. 64 * k) [0..<(h + 63) div 64])))
            (data imageData)\<rparr>"

section \<open>Detail and colour enhancers\<close>

definition enhanceDetails :: "ImageData \<Rightarrow> nat \<Rightarrow> nat \<Rightarrow> error + ImageData" where
  "enhanceDetails imageData w h =
     (case gaussianBlur imageData w h 2 of
        Inl e \<Rightarrow> Inl e
      | Inr blurred \<Rightarrow>
          Inr (imageData\<lparr>data :=
            fold (\<lambda>i d. fold (\<lambda>c d. let detail = val d (i + c) - val (data blurred) (i + c);
                                       enhanced = val d (i + c) + detail * 0.8
                                   in d[i + c := toUint8Clamp (min 255 (max 0 enhanced))])
                              [0..<3] d)
                 (pixelOffsets (data imageData)) (data imageData)\<rparr>))"

definition enhanceColorsPixel :: "nat \<Rightarrow> sample list \<Rightarrow> sample list" where
  "enhanceColorsPixel i d =
     (let r0 = js_pow (val d i / 255) 0.9 * 1.05;
          g0 = js_pow (val d (i + 1) / 255) 0.95 * 1.02;
          b0 = js_pow (val d (i + 2) / 255) 1.1 * 0.98;
          mx = max r0 (max g0 b0);
          mn = min r0 (min g0 b0);
          (r, g, b) = (if mx > mn
                       then (mn + (r0 - mn) * 1.15, mn + (g0 - mn) * 1.15, mn + (b0 - mn) * 1.15)
                       else (r0, g0, b0))
      in d[i := toUint8Clamp (min 255 (max 0 (r * 255))),
           i + 1 := toUint8Clamp (min 255 (max 0 (g * 255))),
           i + 2 := toUint8Clamp (min 255 (max 0 (b * 255)))])"

definition enhanceColors :: "ImageData \<Rightarrow> ImageData" where
  "enhanceColors imageData =
     imageData\<lparr>data := fold enhanceColorsPixel (pixelOffsets (data imageData)) (data imageData)\<rparr>"

definition applyAdvancedAIEnhancement :: "ImageData \<Rightarrow> nat \<Rightarrow> nat \<Rightarrow> error + ImageData" where
  "applyAdvancedAIEnhancement imageData w h =
     (case applyBilateralFilter imageData w h 3 25 of
        Inl e \<Rightarrow> Inl e
      | Inr smoothed \<Rightarrow>
          (case enhanceDetails (applyCLAHE smoothed w h) w h of
             Inl e \<Rightarrow> Inl e
           | Inr detailed \<Rightarrow> Inr (enhanceColors detailed)))"

section \<open>Resampler\<close>





section \<open>Pipeline orchestrator\<close>

record ProcessingSettings =
  sharpening :: real
  denoising :: real
  brightness :: real
  contrast :: real
  saturation :: real
  useAI :: bool

text \<open>
  The browser is a parameter of the two entry points: \<open>ctx\<close> says whether
  \<open>canvas.getContext('2d')\<close> gives a context, and \<open>draw img w h\<close> is the raster that
  \<open>getImageData(0, 0, w, h)\<close> reads after \<open>drawImage(img, 0, 0, w, h)\<close> on a canvas of
  \<open>w\<close> by \<open>h\<close> pixels. The decoded image \<open>img\<close> is given as its raster; a file that fails
  to decode never reaches the pipeline. The result is the raster handed to \<open>putImageData\<close>;
  the JPEG encoding of \<open>toDataURL\<close> is outside the model.
\<close>

definition getImageData :: "sample list \<Rightarrow> nat \<Rightarrow> nat \<Rightarrow> error + ImageData" where
  \<comment> \<open>\<open>getImageData\<close> throws IndexSizeError on an empty rectangle\<close>
  "getImageData canvas w h =
     (if w = 0 \<or> h = 0 then Inl IndexSizeError
      else Inr \<lparr>width = w, height = h, data = canvas\<rparr>)"

definition whenE ::
  "bool \<Rightarrow> (ImageData \<Rightarrow> error + ImageData) \<Rightarrow> error + ImageData \<Rightarrow> error + ImageData" where
  \<comment> \<open>\<open>if (active) imageData = f(imageData)\<close> inside the \<open>try\<close> block\<close>
  "whenE active f r =
     (case r of Inl e \<Rightarrow> Inl e | Inr im \<Rightarrow> if active then f im else Inr im)"

definition stage ::
  "bool \<Rightarrow> (ImageData \<Rightarrow> error + ImageData) \<Rightarrow> nat \<Rightarrow>
   (error + ImageData) \<times> nat list \<Rightarrow> (error + ImageData) \<times> nat list" where
  \<comment> \<open>\<open>if (active) { imageData = f(imageData); onProgress(milestone); }\<close>, with the list of
      the values reported so far\<close>
  "stage active f milestone st =
     (case st of
        (Inl e, reported) \<Rightarrow> (Inl e, reported)
      | (Inr im, reported) \<Rightarrow>
          if active
          then (case f im of
                  Inl e \<Rightarrow> (Inl e, reported)
                | Inr im' \<Rightarrow> (Inr im', reported @ [milestone]))
          else (Inr im, reported))"

definition processImageRealtime ::
  "bool \<Rightarrow> (ImageData \<Rightarrow> nat \<Rightarrow> nat \<Rightarrow> sample list) \<Rightarrow> ImageData \<Rightarrow> ProcessingSettings \<Rightarrow>
   error + ImageData" where
  "processImageRealtime ctx draw img settings =
     (let maxSize = 800;
          scale = min (maxSize / real (width img)) (min (maxSize / real (height img)) 1);
          w = nat \<lfloor>real (width img) * scale\<rfloor>;
          h = nat \<lfloor>real (height img) * scale\<rfloor>
      in if \<not> ctx then Inl ContextUnavailable
         else
           whenE (useAI settings) (\<lambda>im. applyAdvancedAIEnhancement im w h)
          (whenE (sharpening settings > 0)
                 (\<lambda>im. applyUnsharpMask im w h (0.5 + (sharpening settings / 100) * 2)
                                         (1 + (sharpening settings / 100) * 1.5) 3)
          (whenE (saturation settings \<noteq> 0)
                 (\<lambda>im. Inr (applyAdvancedSaturation im (saturation settings)))
          (whenE (brightness settings \<noteq> 0 \<or> contrast settings \<noteq> 0)
                 (\<lambda>im. Inr (applyAdvancedToneMapping im (brightness settings) (contrast settings)))
          (whenE (denoising settings > 0)
                 (\<lambda>im. applyBilateralFilter im w h (2 + (denoising settings / 100) * 3)
                                             (15 + (denoising settings / 100) * 35))
          (getImageData (draw img w h) w h))))))"

definition processImage ::
  "bool \<Rightarrow> (ImageData \<Rightarrow> nat \<Rightarrow> nat \<Rightarrow> sample list) \<Rightarrow> ImageData \<Rightarrow> ProcessingSettings \<Rightarrow>
   (error + ImageData) \<times> nat list" where
  \<comment> \<open>the outcome and the values passed to \<open>onProgress\<close>, in order\<close>
  "processImage ctx draw img settings =
     (let scale = (if width img * height img < 1000000
                   then min 2 (1500 / real (max (width img) (height img)))
                   else 1);
          w = nat \<lfloor>real (width img) * scale\<rfloor>;
          h = nat \<lfloor>real (height img) * scale\<rfloor>
      in if \<not> ctx then (Inl ContextUnavailable, [])
         else
           stage True Inr 100
          (stage (sharpening settings > 0)
                 (\<lambda>im. applyUnsharpMask im w h (1 + (sharpening settings / 100) * 3)
                                         (1.2 + (sharpening settings / 100) * 2) 2) 95
          (stage (saturation settings \<noteq> 0)
                 (\<lambda>im. Inr (applyAdvancedSaturation im (saturation settings))) 80
          (stage (brightness settings \<noteq> 0 \<or> contrast settings \<noteq> 0)
                 (\<lambda>im. Inr (applyAdvancedToneMapping im (brightness settings) (contrast settings))) 65
          (stage (useAI settings) (\<lambda>im. applyAdvancedAIEnhancement im w h) 50
          (stage (denoising settings > 0)
                 (\<lambda>im. applyBilateralFilter im w h (3 + (denoising settings / 100) * 4)
                                             (20 + (denoising settings / 100) * 50)) 25
          (getImageData (draw img w h) w h, [10])))))))"

section \<open>Notions used to state the properties\<close>

definition nextOdd :: "int \<Rightarrow> int" where
  \<comment> \<open>the specification's next-odd: the least odd integer not below \<open>n\<close>\<close>
  "nextOdd n = (if odd n then n else n + 1)"

definition expectedProgress :: "ProcessingSettings \<Rightarrow> nat list" where
  \<comment> \<open>the specification's milestone sequence of a full-quality run\<close>
  "expectedProgress settings =
     [10] @ (if denoising settings > 0 then [25] else [])
          @ (if useAI settings then [50] else [])
          @ (if brightness settings \<noteq> 0 \<or> contrast settings \<noteq> 0 then [65] else [])
          @ (if saturation settings \<noteq> 0 then [80] else [])
          @ (if sharpening settings > 0 then [95] else [])
          @ [100]"

definition sameAlpha :: "sample list \<Rightarrow> sample list \<Rightarrow> bool" where
  \<comment> \<open>\<open>out\<close> has the length of \<open>d\<close> and the alpha sample of every pixel of \<open>d\<close>\<close>
  "sameAlpha d out \<longleftrightarrow>
     length out = length d \<and> (\<forall>p \<in> {0..<length d div 4}. out ! (4 * p + 3) = d ! (4 * p + 3))"

definition uniformImage :: "nat \<Rightarrow> nat \<Rightarrow> sample list \<Rightarrow> ImageData" where
  \<comment> \<open>the \<open>w\<close> by \<open>h\<close> image all of whose pixels are \<open>px = [r, g, b, a]\<close>\<close>
  "uniformImage w h px = \<lparr>width = w, height = h, data = concat (replicate (w * h) px)\<rparr>"

definition nearestNeighbour :: "ImageData \<Rightarrow> nat \<Rightarrow> nat \<Rightarrow> sample list" where
  \<comment> \<open>one scaler a canvas may use for \<open>drawImage\<close>: every destination pixel takes the
      source pixel at the proportional position. It instantiates the parameter \<open>draw\<close>
      where a concrete run is evaluated.\<close>
  "nearestNeighbour img w h =
     concat (map (\<lambda>(y, x). let sy = y * height img div h; sx = x * width img div w
                            in take 4 (drop ((sy * width img + sx) * 4) (data img)))
                 (coords w h))"


definition shaped :: "nat \<Rightarrow> nat \<Rightarrow> ImageData \<Rightarrow> bool" where
  \<comment> \<open>a well-formed image of \<open>w\<close> by \<open>h\<close> pixels\<close>
  "shaped w h im \<longleftrightarrow> valid im \<and> width im = w \<and> height im = h"

definition exactArithmetic :: arithmetic where
  \<comment> \<open>the arithmetic of the real numbers, with which the doubles agree wherever the exact
      result is a double; it instantiates the parameter \<open>ar\<close> where a concrete run is
      evaluated. Outside the finite numbers it is NaN.\<close>
  "exactArithmetic =
     (let value = (\<lambda>a. case a of Finite x \<Rightarrow> Some x | NegZero \<Rightarrow> Some 0 | _ \<Rightarrow> None);
          lift1 = (\<lambda>f a. case value a of Some x \<Rightarrow> Finite (f x) | None \<Rightarrow> NaN);
          lift2 = (\<lambda>f a b. case (value a, value b) of
                               (Some x, Some y) \<Rightarrow> Finite (f x y) | _ \<Rightarrow> NaN)
      in \<lparr>fadd = lift2 (+), fsub = lift2 (-), fmul = lift2 (*),
          fdiv = (\<lambda>a b. if value b = Some 0 then NaN else lift2 (/) a b),
          fneg = lift1 uminus, fabs = lift1 abs, fexp = lift1 exp\<rparr>)"



section \<open>The Gaussian kernel\<close>

text \<open>
  The length of the kernel. Its weights are doubles, quotients of values of Math.exp by
  their sum: whether they are non-negative, symmetric and sum to 1 within a tolerance is a
  matter of the rounding, the underflow and the NaN of IEEE arithmetic and of the
  accuracy of Math.exp, and is not stated here.
\<close>

lemma js_or_one_odd: "odd (js_or n 1)"
  by (simp add: js_or_def toInt32_def or_one_eq)

lemma js_or_one_small: "0 \<le> n \<Longrightarrow> n < 2 ^ 31 \<Longrightarrow> js_or n 1 = nextOdd n"
  by (auto simp add: js_or_def toInt32_def or_one_eq nextOdd_def)

lemma kernel_length: "length (generateGaussianKernel radius) = nat (max 3 (js_or \<lceil>radius * 6\<rceil> 1))"
  by (simp add: generateGaussianKernel_def Let_def)

lemma kernel_length_odd: "odd (length (generateGaussianKernel radius)) \<and> 3 \<le> length (generateGaussianKernel radius)"
proof -
  let ?s = "max 3 (js_or \<lceil>radius * 6\<rceil> 1)"
  have "odd ?s" using js_or_one_odd [of "\<lceil>radius * 6\<rceil>"] by (simp add: max_def)
  moreover have "3 \<le> ?s" by simp
  ultimately have "odd (nat ?s)" "3 \<le> nat ?s"
    by (simp_all add: even_nat_iff)
  then show ?thesis by (simp add: kernel_length)
qed

text \<open>
  The source makes the size odd with \<open>| 1\<close>, which coerces its operand to a 32-bit integer.
  At radius 400000000, where the product \<open>radius * 6\<close> is exact in doubles, the coercion
  wraps \<open>ceil(radius * 6) = 2400000000\<close> to a negative integer and the kernel has 3
  weights, not the 2400000001 of \<open>max(3, next-odd(ceil(radius * 6)))\<close>.
\<close>

lemma kernel_length_wraps:
  "length (generateGaussianKernel 400000000) = 3
   \<and> max 3 (nextOdd \<lceil>400000000 * 6 :: real\<rceil>) = 2400000001"
  by (simp add: kernel_length js_or_def toInt32_def or_one_eq nextOdd_def)

section \<open>Buffers keep their length and their alpha samples\<close>

lemma upt_0_3: "[0..<3] = [0, 1, 2]"
  by (simp add: upt_rec)


lemma fold_inv: "P s \<Longrightarrow> (\<And>x s. P s \<Longrightarrow> P (f x s)) \<Longrightarrow> P (fold f xs s)"
  by (induction xs arbitrary: s) auto

lemma fold_length: "(\<And>x s. length (f x s) = length s) \<Longrightarrow> length (fold f xs s) = length s"
  by (induction xs arbitrary: s) auto


lemma sameAlpha_refl: "sameAlpha d d"
  by (simp add: sameAlpha_def)

lemma sameAlpha_trans: "sameAlpha a b \<Longrightarrow> sameAlpha b c \<Longrightarrow> sameAlpha a c"
  by (simp add: sameAlpha_def)

lemma nth_update_cases: "xs[i := v] ! j = (if i = j \<and> i < length xs then v else xs ! j)"
  by (cases "i < length xs") (auto simp: nth_list_update list_update_beyond)

lemma sameAlpha_rgb:
  assumes "sameAlpha d out" and "i mod 4 \<noteq> 3"
  shows "sameAlpha d (out[i := v])"
proof -
  have "i \<noteq> 4 * p + 3" for p using assms(2) by auto
  then show ?thesis using assms(1) by (simp add: sameAlpha_def nth_update_cases)
qed

lemma sameAlpha_copy:
  assumes "sameAlpha d t" and "sameAlpha d out"
  shows "sameAlpha d (out[i := t ! i])"
proof -
  have "out[i := t ! i] ! (4 * p + 3) = d ! (4 * p + 3)" if "p < length d div 4" for p
    using assms that by (auto simp: sameAlpha_def nth_update_cases)
  then show ?thesis using assms(2) by (simp add: sameAlpha_def)
qed

lemma sameAlpha_rgb':
  "sameAlpha d out \<Longrightarrow> c < 3 \<Longrightarrow> sameAlpha d (out[p * 4 + c := v])"
  by (rule sameAlpha_rgb) (simp_all add: mod_mult_self3)

lemma sameAlpha_rgb'':
  "sameAlpha d out \<Longrightarrow> c < 3 \<Longrightarrow> sameAlpha d (out[4 * p + c := v])"
  by (rule sameAlpha_rgb) (simp_all add: mod_mult_self4)

lemma fold_rgb_inv: "P s \<Longrightarrow> (\<And>c s. c < 3 \<Longrightarrow> P s \<Longrightarrow> P (f c s)) \<Longrightarrow> P (fold f [0..<3] s)"
  by (rule fold_invariant [where Q = "\<lambda>c. c < 3"]) auto

lemma newImageData_ok:
  "0 < w \<Longrightarrow> 0 < h \<Longrightarrow> length d = 4 * w * h \<Longrightarrow> newImageData d w h = Inr \<lparr>width = w, height = h, data = d\<rparr>"
  by (simp add: newImageData_def)

lemma horizontalPass_alpha: "sameAlpha d (horizontalPass kern d w h)"
  unfolding horizontalPass_def
  apply (rule fold_inv)
   apply (rule sameAlpha_refl)
  apply (simp only: split_paired_all prod.case)
  apply (rule sameAlpha_copy [OF sameAlpha_refl])
  apply (rule fold_rgb_inv, assumption)
  apply (simp only: Let_def split_def)
  apply (rule sameAlpha_rgb', assumption, assumption)
  done

lemma verticalPass_alpha: "sameAlpha d t \<Longrightarrow> sameAlpha d (verticalPass kern t d w h)"
  unfolding verticalPass_def
  apply (rule fold_inv)
   apply (rule sameAlpha_refl)
  apply (simp only: split_paired_all prod.case)
  apply (rule sameAlpha_copy, assumption)
  apply (rule fold_rgb_inv, assumption)
  apply (simp only: Let_def split_def)
  apply (rule sameAlpha_rgb', assumption, assumption)
  done

lemma sameAlpha_rgb_dvd:
  "sameAlpha d out \<Longrightarrow> 4 dvd i \<Longrightarrow> c < 3 \<Longrightarrow> sameAlpha d (out[i + c := v])"
  by (rule sameAlpha_rgb) (auto simp: mod_add_left_eq [symmetric, of i 4 c] dvd_eq_mod_eq_0)

lemma sameAlpha_rgb3:
  assumes "sameAlpha d out" and "4 dvd i"
  shows "sameAlpha d (out[i := u, i + 1 := v, i + 2 := w])"
proof -
  have "sameAlpha d (out[i + 0 := u])" by (rule sameAlpha_rgb_dvd [OF assms]) simp
  then have "sameAlpha d (out[i + 0 := u, i + 1 := v])" by (rule sameAlpha_rgb_dvd [OF _ assms(2)]) simp
  then have "sameAlpha d (out[i + 0 := u, i + 1 := v, i + 2 := w])"
    by (rule sameAlpha_rgb_dvd [OF _ assms(2)]) simp
  then show ?thesis by simp
qed

lemma sameAlpha_rgb3_Suc:
  "sameAlpha d out \<Longrightarrow> 4 dvd i \<Longrightarrow> sameAlpha d (out[i := u, Suc i := v, Suc (Suc i) := w])"
  using sameAlpha_rgb3 [of d out i u v w] by simp

lemma fold_offsets_inv:
  "P s \<Longrightarrow> (\<And>i s. 4 dvd i \<Longrightarrow> P s \<Longrightarrow> P (f i s)) \<Longrightarrow> P (fold f (pixelOffsets d) s)"
  by (rule fold_invariant [where Q = "\<lambda>i. 4 dvd i"]) (auto simp: pixelOffsets_def)

lemma sameAlpha_wr_rgb:
  assumes "sameAlpha d out" and "c < 3"
  shows "sameAlpha d (wr out (k * 4 + int c) v)"
proof (cases "0 \<le> k * 4 + int c")
  case True
  have "(k * 4 + int c) mod 4 = int c" using assms(2) by simp
  moreover have "nat ((k * 4 + int c) mod 4) = nat (k * 4 + int c) mod nat 4"
    using True by (intro nat_mod_distrib) simp_all
  ultimately have "nat (k * 4 + int c) mod 4 = c" by simp
  then have "nat (k * 4 + int c) mod 4 \<noteq> 3" using assms(2) by simp
  then show ?thesis using True assms(1) by (simp add: wr_def sameAlpha_rgb)
next
  case False
  then show ?thesis using assms(1) by (simp add: wr_def)
qed

lemma sameAlpha_wr_copy: "sameAlpha d out \<Longrightarrow> sameAlpha d (wr out i (d ! nat i))"
  by (simp add: wr_def sameAlpha_copy [OF sameAlpha_refl])

lemma gaussianBlur_alpha:
  assumes "valid img"
  shows "\<exists>out. gaussianBlur img (width img) (height img) radius = Inr out
           \<and> width out = width img \<and> height out = height img
           \<and> sameAlpha (data img) (data out)"
proof -
  let ?t = "horizontalPass (generateGaussianKernel radius) (data img) (width img) (height img)"
  let ?o = "verticalPass (generateGaussianKernel radius) ?t (data img) (width img) (height img)"
  have a: "sameAlpha (data img) ?o"
    by (rule verticalPass_alpha [OF horizontalPass_alpha])
  then have "length ?o = 4 * width img * height img"
    using assms by (simp add: sameAlpha_def valid_def)
  then have "newImageData ?o (width img) (height img)
      = Inr \<lparr>width = width img, height = height img, data = ?o\<rparr>"
    using assms by (intro newImageData_ok) (simp_all add: valid_def)
  then show ?thesis using a by (simp add: gaussianBlur_def Let_def)
qed

lemma unsharp_fold_alpha:
  "sameAlpha d (fold (\<lambda>i out. (fold (\<lambda>c b. b[i + c := g i c]) [0..<3] out)[i + 3 := d ! (i + 3)])
                     (pixelOffsets d) d)"
  apply (rule fold_offsets_inv)
   apply (rule sameAlpha_refl)
  apply (rule sameAlpha_copy [OF sameAlpha_refl])
  apply (rule fold_rgb_inv, assumption)
  apply (rule sameAlpha_rgb_dvd, assumption, assumption, assumption)
  done

lemma applyUnsharpMask_alpha:
  assumes "valid img"
  shows "\<exists>out. applyUnsharpMask img (width img) (height img) amount radius threshold = Inr out
           \<and> width out = width img \<and> height out = height img
           \<and> sameAlpha (data img) (data out)"
proof -
  obtain bl where bl: "gaussianBlur img (width img) (height img) radius = Inr bl"
    using gaussianBlur_alpha [OF assms] by blast
  let ?o = "fold (\<lambda>i out. (fold (\<lambda>c b. b[i + c := unsharpSample (val (data img) (i + c))
                                 (val (data bl) (i + c)) amount threshold]) [0..<3] out)
                          [i + 3 := data img ! (i + 3)]) (pixelOffsets (data img)) (data img)"
  have a: "sameAlpha (data img) ?o" by (rule unsharp_fold_alpha)
  then have "length ?o = 4 * width img * height img"
    using assms by (simp add: sameAlpha_def valid_def)
  then have "newImageData ?o (width img) (height img)
      = Inr \<lparr>width = width img, height = height img, data = ?o\<rparr>"
    using assms by (intro newImageData_ok) (simp_all add: valid_def)
  then show ?thesis using a bl by (simp add: applyUnsharpMask_def Let_def)
qed

lemma bilateralPixel_alpha:
  "sameAlpha d out \<Longrightarrow> sameAlpha d (bilateralPixel d w ss si r p out)"
  unfolding bilateralPixel_def
  apply (cases p)
  apply (simp only: prod.case)
  apply (rule sameAlpha_wr_copy)
  apply (rule fold_rgb_inv, assumption)
  apply (simp only: Let_def split_def)
  apply (rule sameAlpha_wr_rgb, assumption, assumption)
  done

lemma applyBilateralFilter_alpha:
  assumes "valid img"
  shows "\<exists>out. applyBilateralFilter img (width img) (height img) ss si = Inr out
           \<and> width out = width img \<and> height out = height img
           \<and> sameAlpha (data img) (data out)"
proof -
  let ?r = "\<lceil>ss * 2\<rceil>"
  let ?o = "fold (bilateralPixel (data img) (width img) ss si ?r)
       (concat (map (\<lambda>y. map (\<lambda>x. (y, x)) [?r..int (width img) - ?r - 1])
                    [?r..int (height img) - ?r - 1])) (data img)"
  have a: "sameAlpha (data img) ?o"
    by (rule fold_inv) (rule sameAlpha_refl, rule bilateralPixel_alpha)
  then have "length ?o = 4 * width img * height img"
    using assms by (simp add: sameAlpha_def valid_def)
  then have "newImageData ?o (width img) (height img)
      = Inr \<lparr>width = width img, height = height img, data = ?o\<rparr>"
    using assms by (intro newImageData_ok) (simp_all add: valid_def)
  then show ?thesis using a by (simp add: applyBilateralFilter_def Let_def)
qed

lemma data_applyAdvancedToneMapping:
  "data (applyAdvancedToneMapping img b c) =
     fold (\<lambda>i d. fold (\<lambda>ch d. d[i + ch := toneSample b c (val d (i + ch))]) [0..<3] d)
          (pixelOffsets (data img)) (data img)"
  unfolding applyAdvancedToneMapping_def by (cases img) simp

lemma applyAdvancedToneMapping_alpha:
  "sameAlpha (data img) (data (applyAdvancedToneMapping img b c))"
  unfolding data_applyAdvancedToneMapping
  apply (rule fold_offsets_inv)
   apply (rule sameAlpha_refl)
  apply (rule fold_rgb_inv, assumption)
  apply (rule sameAlpha_rgb_dvd, assumption, assumption, assumption)
  done

lemma saturatePixel_form:
  "\<exists>u v w. saturatePixel factor i d = d \<or> saturatePixel factor i d = d[i := u, i + 1 := v, i + 2 := w]"
  apply (intro exI)
  apply (simp only: saturatePixel_def Let_def split_def)
  apply (split if_split)
  apply (intro conjI impI)
   apply (rule disjI1, rule refl)
  apply (rule disjI2, rule refl)
  done

lemma saturatePixel_alpha:
  assumes "sameAlpha d0 d" and "4 dvd i"
  shows "sameAlpha d0 (saturatePixel factor i d)"
proof -
  obtain u v w where "saturatePixel factor i d = d
      \<or> saturatePixel factor i d = d[i := u, i + 1 := v, i + 2 := w]"
    using saturatePixel_form by blast
  then show ?thesis
    using assms sameAlpha_rgb3 [OF assms, of u v w] by auto
qed

lemma data_applyAdvancedSaturation:
  "data (applyAdvancedSaturation img s) =
     fold (saturatePixel ((s + 100) / 100)) (pixelOffsets (data img)) (data img)"
  unfolding applyAdvancedSaturation_def Let_def by (cases img) simp

lemma applyAdvancedSaturation_alpha:
  "sameAlpha (data img) (data (applyAdvancedSaturation img s))"
  unfolding data_applyAdvancedSaturation
  apply (rule fold_offsets_inv)
   apply (rule sameAlpha_refl)
  apply (rule saturatePixel_alpha, assumption, assumption)
  done

lemma enhanceColorsPixel_form:
  "\<exists>u v w. enhanceColorsPixel i d = d[i := u, i + 1 := v, i + 2 := w]"
  apply (intro exI)
  apply (simp only: enhanceColorsPixel_def Let_def split_def)
  done

lemma data_enhanceColors:
  "data (enhanceColors img) = fold enhanceColorsPixel (pixelOffsets (data img)) (data img)"
  unfolding enhanceColors_def by (cases img) simp

lemma enhanceColors_alpha:
  "sameAlpha (data img) (data (enhanceColors img))"
  unfolding data_enhanceColors
proof (rule fold_offsets_inv)
  show "sameAlpha (data img) (data img)" by (rule sameAlpha_refl)
next
  fix i :: nat and s
  assume d: "4 dvd i" and s: "sameAlpha (data img) s"
  obtain u v w where "enhanceColorsPixel i s = s[i := u, i + 1 := v, i + 2 := w]"
    using enhanceColorsPixel_form by blast
  then show "sameAlpha (data img) (enhanceColorsPixel i s)"
    using sameAlpha_rgb3 [OF s d, of u v w] by simp
qed

lemma tileIndices_dvd: "idx \<in> set (tileIndices w bx by ex ey) \<Longrightarrow> 4 dvd idx"
  by (auto simp: tileIndices_def)

lemma equalizeTile_alpha:
  assumes "\<And>idx. idx \<in> set idxs \<Longrightarrow> 4 dvd idx" and "sameAlpha d0 d"
  shows "sameAlpha d0 (equalizeTile cdf idxs d)"
  unfolding equalizeTile_def
  apply (rule fold_invariant [where Q = "\<lambda>i. 4 dvd i"])
    apply (erule assms(1))
   apply (rule assms(2))
  apply (rule fold_rgb_inv, assumption)
  apply (simp only: Let_def)
  apply (rule sameAlpha_rgb_dvd, assumption, assumption, assumption)
  done

lemma data_applyCLAHE:
  "data (applyCLAHE img w h) =
     fold (\<lambda>(by, bx) d.
               let idxs = tileIndices w bx by (min (bx + 64) w) (min (by + 64) h)
               in equalizeTile (tileCdf d idxs) idxs d)
            (concat (map (\<lambda>by. map (\<lambda>bx. (by, bx)) (map (\<lambda>k. 64 * k) [0..<(w + 63) div 64]))
                         (map (\<lambda>k. 64 * k) [0..<(h + 63) div 64])))
            (data img)"
  unfolding applyCLAHE_def by (cases img) simp

lemma applyCLAHE_alpha:
  "sameAlpha (data img) (data (applyCLAHE img w h))"
  unfolding data_applyCLAHE
  apply (rule fold_inv)
   apply (rule sameAlpha_refl)
  apply (simp only: split_def Let_def)
  apply (rule equalizeTile_alpha)
   apply (erule tileIndices_dvd)
  apply assumption
  done

lemma enhanceDetails_alpha:
  assumes "valid img"
  shows "\<exists>out. enhanceDetails img (width img) (height img) = Inr out
           \<and> width out = width img \<and> height out = height img
           \<and> sameAlpha (data img) (data out)"
proof -
  obtain bl where bl: "gaussianBlur img (width img) (height img) 2 = Inr bl"
    using gaussianBlur_alpha [OF assms] by blast
  have "sameAlpha (data img)
     (fold (\<lambda>i d. fold (\<lambda>c d. let detail = val d (i + c) - val (data bl) (i + c);
                                       enhanced = val d (i + c) + detail * 0.8
                                   in d[i + c := toUint8Clamp (min 255 (max 0 enhanced))])
                              [0..<3] d)
                 (pixelOffsets (data img)) (data img))"
    apply (rule fold_offsets_inv)
     apply (rule sameAlpha_refl)
    apply (rule fold_rgb_inv, assumption)
    apply (simp only: Let_def)
    apply (rule sameAlpha_rgb_dvd, assumption, assumption, assumption)
    done
  then show ?thesis using bl by (cases img) (simp add: enhanceDetails_def)
qed



lemma bilateral_noop:
  assumes "valid img"
    and "int (width img) \<le> 2 * \<lceil>ss * 2\<rceil> \<or> int (height img) \<le> 2 * \<lceil>ss * 2\<rceil>"
  shows "applyBilateralFilter img (width img) (height img) ss si = Inr img"
proof -
  have "concat (map (\<lambda>y. map (\<lambda>x. (y, x)) [\<lceil>ss * 2\<rceil>..int (width img) - \<lceil>ss * 2\<rceil> - 1])
                    [\<lceil>ss * 2\<rceil>..int (height img) - \<lceil>ss * 2\<rceil> - 1]) = []"
    using assms(2) by auto
  moreover have "newImageData (data img) (width img) (height img) = Inr img"
    using assms(1) by (simp add: newImageData_ok valid_def)
  ultimately show ?thesis by (simp only: applyBilateralFilter_def Let_def fold_simps id_apply)
qed

lemma ai_chain_small:
  assumes "valid img" and "width img \<le> 12 \<or> height img \<le> 12"
  shows "applyBilateralFilter img (width img) (height img) 3 25 = Inr img"
  by (rule bilateral_noop [OF assms(1)]) (use assms(2) in auto)

text \<open>
  Claim C10. The bilateral filter returns the image unchanged whenever the width or the
  height is at most \<open>2 * ceil(spatialSigma * 2)\<close>. In particular the pass of the AI chain, with
  \<open>spatialSigma = 3\<close> and radius 6, leaves an image with a dimension of at most 12 pixels as
  it is, so that the chain is the remaining three steps applied to the input.
\<close>

theorem bilateral_small_image_unchanged:
  assumes "valid img"
  shows "(int (width img) \<le> 2 * \<lceil>spatialSigma * 2\<rceil> \<or> int (height img) \<le> 2 * \<lceil>spatialSigma * 2\<rceil>
           \<longrightarrow> applyBilateralFilter img (width img) (height img) spatialSigma intensitySigma = Inr img)
       \<and> (width img \<le> 12 \<or> height img \<le> 12
           \<longrightarrow> applyBilateralFilter img (width img) (height img) 3 25 = Inr img
             \<and> applyAdvancedAIEnhancement img (width img) (height img) =
                 (case enhanceDetails (applyCLAHE img (width img) (height img)) (width img) (height img) of
                    Inl e \<Rightarrow> Inl e
                  | Inr detailed \<Rightarrow> Inr (enhanceColors detailed)))"
  using bilateral_noop [OF assms, of spatialSigma intensitySigma] ai_chain_small [OF assms]
  by (simp add: applyAdvancedAIEnhancement_def)

theorem bilateral_small_image_unchanged_witness:
  "valid (uniformImage 12 2 [7, 8, 9, 255])
   \<and> applyBilateralFilter (uniformImage 12 2 [7, 8, 9, 255]) 12 2 3 25
       = Inr (uniformImage 12 2 [7, 8, 9, 255])
   \<and> applyBilateralFilter (uniformImage 12 2 [7, 8, 9, 255]) 12 2 (1 / 2) 10
       = Inr (uniformImage 12 2 [7, 8, 9, 255])"
proof -
  let ?img = "uniformImage 12 2 [7, 8, 9, 255]"
  have v: "valid ?img" by (simp add: valid_def uniformImage_def length_concat sum_list_replicate)
  have w: "width ?img = 12" "height ?img = 2" by (simp_all add: uniformImage_def)
  show ?thesis
    using v bilateral_small_image_unchanged [OF v, of "1 / 2" 10] by (simp add: w)
qed

section \<open>The pipeline and its progress reports\<close>

lemma stage_Inr:
  assumes "stage a f m st = (Inr out, rep)"
  shows "\<exists>im rep0. st = (Inr im, rep0) \<and> rep = rep0 @ (if a then [m] else [])"
  using assms by (auto simp: stage_def split: prod.splits sum.splits if_splits)

lemma expectedProgress_sorted: "sorted (expectedProgress settings)"
  by (simp add: expectedProgress_def)

lemma expectedProgress_ends:
  "hd (expectedProgress settings) = 10 \<and> last (expectedProgress settings) = 100"
  by (simp add: expectedProgress_def)

lemma processImage_reported:
  assumes "processImage ctx draw img settings = (Inr out, reported)"
  shows "reported = expectedProgress settings"
proof -
  from assms have c: ctx
    by (auto simp: processImage_def Let_def split: if_splits)
  let ?scale = "if width img * height img < 1000000
                   then min 2 (1500 / real (max (width img) (height img))) else 1"
  let ?w = "nat \<lfloor>real (width img) * ?scale\<rfloor>"
  let ?h = "nat \<lfloor>real (height img) * ?scale\<rfloor>"
  from assms c obtain s5 where
    s6: "stage True Inr 100 s5 = (Inr out, reported)" and
    s5: "s5 = stage (sharpening settings > 0)
                 (\<lambda>im. applyUnsharpMask im ?w ?h (1 + (sharpening settings / 100) * 3)
                                         (1.2 + (sharpening settings / 100) * 2) 2) 95
          (stage (saturation settings \<noteq> 0)
                 (\<lambda>im. Inr (applyAdvancedSaturation im (saturation settings))) 80
          (stage (brightness settings \<noteq> 0 \<or> contrast settings \<noteq> 0)
                 (\<lambda>im. Inr (applyAdvancedToneMapping im (brightness settings) (contrast settings))) 65
          (stage (useAI settings) (\<lambda>im. applyAdvancedAIEnhancement im ?w ?h) 50
          (stage (denoising settings > 0)
                 (\<lambda>im. applyBilateralFilter im ?w ?h (3 + (denoising settings / 100) * 4)
                                             (20 + (denoising settings / 100) * 50)) 25
          (getImageData (draw img ?w ?h) ?w ?h, [10])))))"
    by (simp add: processImage_def Let_def)
  from stage_Inr [OF s6] obtain i5 r5 where
    e5: "s5 = (Inr i5, r5)" and r6: "reported = r5 @ [100]" by auto
  from stage_Inr [OF e5 [unfolded s5]] obtain i4 r4 where
    e4: "stage (saturation settings \<noteq> 0)
                 (\<lambda>im. Inr (applyAdvancedSaturation im (saturation settings))) 80
          (stage (brightness settings \<noteq> 0 \<or> contrast settings \<noteq> 0)
                 (\<lambda>im. Inr (applyAdvancedToneMapping im (brightness settings) (contrast settings))) 65
          (stage (useAI settings) (\<lambda>im. applyAdvancedAIEnhancement im ?w ?h) 50
          (stage (denoising settings > 0)
                 (\<lambda>im. applyBilateralFilter im ?w ?h (3 + (denoising settings / 100) * 4)
                                             (20 + (denoising settings / 100) * 50)) 25
          (getImageData (draw img ?w ?h) ?w ?h, [10])))) = (Inr i4, r4)"
    and r5: "r5 = r4 @ (if sharpening settings > 0 then [95] else [])" by blast
  from stage_Inr [OF e4] obtain i3 r3 where
    e3: "stage (brightness settings \<noteq> 0 \<or> contrast settings \<noteq> 0)
                 (\<lambda>im. Inr (applyAdvancedToneMapping im (brightness settings) (contrast settings))) 65
          (stage (useAI settings) (\<lambda>im. applyAdvancedAIEnhancement im ?w ?h) 50
          (stage (denoising settings > 0)
                 (\<lambda>im. applyBilateralFilter im ?w ?h (3 + (denoising settings / 100) * 4)
                                             (20 + (denoising settings / 100) * 50)) 25
          (getImageData (draw img ?w ?h) ?w ?h, [10]))) = (Inr i3, r3)"
    and r4: "r4 = r3 @ (if saturation settings \<noteq> 0 then [80] else [])" by blast
  from stage_Inr [OF e3] obtain i2 r2 where
    e2: "stage (useAI settings) (\<lambda>im. applyAdvancedAIEnhancement im ?w ?h) 50
          (stage (denoising settings > 0)
                 (\<lambda>im. applyBilateralFilter im ?w ?h (3 + (denoising settings / 100) * 4)
                                             (20 + (denoising settings / 100) * 50)) 25
          (getImageData (draw img ?w ?h) ?w ?h, [10])) = (Inr i2, r2)"
    and r3: "r3 = r2 @ (if brightness settings \<noteq> 0 \<or> contrast settings \<noteq> 0 then [65] else [])"
    by blast
  from stage_Inr [OF e2] obtain i1 r1 where
    e1: "stage (denoising settings > 0)
                 (\<lambda>im. applyBilateralFilter im ?w ?h (3 + (denoising settings / 100) * 4)
                                             (20 + (denoising settings / 100) * 50)) 25
          (getImageData (draw img ?w ?h) ?w ?h, [10]) = (Inr i1, r1)"
    and r2: "r2 = r1 @ (if useAI settings then [50] else [])" by blast
  from stage_Inr [OF e1] obtain i0 r0 where
    e0: "(getImageData (draw img ?w ?h) ?w ?h, [10::nat]) = (Inr i0, r0)"
    and r1: "r1 = r0 @ (if denoising settings > 0 then [25] else [])" by blast
  from e0 have "r0 = [10]" by simp
  with r1 r2 r3 r4 r5 r6 show ?thesis
    by (simp add: expectedProgress_def)
qed

lemma shaped_of_sameAlpha:
  "shaped w h img \<Longrightarrow> width out = width img \<Longrightarrow> height out = height img \<Longrightarrow>
   sameAlpha (data img) (data out) \<Longrightarrow> shaped w h out"
  by (simp add: shaped_def valid_def sameAlpha_def)

lemma dims_inplace:
  "width (applyAdvancedToneMapping img b c) = width img"
  "height (applyAdvancedToneMapping img b c) = height img"
  "width (applyAdvancedSaturation img s) = width img"
  "height (applyAdvancedSaturation img s) = height img"
  "width (applyCLAHE img w h) = width img"
  "height (applyCLAHE img w h) = height img"
  "width (enhanceColors img) = width img"
  "height (enhanceColors img) = height img"
  by (cases img, simp add: applyAdvancedToneMapping_def applyAdvancedSaturation_def
        applyCLAHE_def enhanceColors_def Let_def)+

lemma shaped_tone: "shaped w h img \<Longrightarrow> shaped w h (applyAdvancedToneMapping img b c)"
  by (erule shaped_of_sameAlpha) (simp_all add: dims_inplace applyAdvancedToneMapping_alpha)

lemma shaped_saturation: "shaped w h img \<Longrightarrow> shaped w h (applyAdvancedSaturation img s)"
  by (erule shaped_of_sameAlpha) (simp_all add: dims_inplace applyAdvancedSaturation_alpha)

lemma shaped_clahe: "shaped w h img \<Longrightarrow> shaped w h (applyCLAHE img w' h')"
  by (erule shaped_of_sameAlpha) (simp_all add: dims_inplace applyCLAHE_alpha)

lemma shaped_colors: "shaped w h img \<Longrightarrow> shaped w h (enhanceColors img)"
  by (erule shaped_of_sameAlpha) (simp_all add: dims_inplace enhanceColors_alpha)

lemma shaped_blur:
  assumes "shaped w h img"
  shows "\<exists>out. gaussianBlur img w h r = Inr out \<and> shaped w h out"
  using assms gaussianBlur_alpha [of img r] shaped_of_sameAlpha [OF assms]
  by (auto simp: shaped_def)

lemma shaped_unsharp:
  assumes "shaped w h img"
  shows "\<exists>out. applyUnsharpMask img w h a r t = Inr out \<and> shaped w h out"
  using assms applyUnsharpMask_alpha [of img a r t] shaped_of_sameAlpha [OF assms]
  by (auto simp: shaped_def)

lemma shaped_bilateral:
  assumes "shaped w h img"
  shows "\<exists>out. applyBilateralFilter img w h ss si = Inr out \<and> shaped w h out"
  using assms applyBilateralFilter_alpha [of img ss si] shaped_of_sameAlpha [OF assms]
  by (auto simp: shaped_def)

lemma shaped_details:
  assumes "shaped w h img"
  shows "\<exists>out. enhanceDetails img w h = Inr out \<and> shaped w h out"
  using assms enhanceDetails_alpha [of img] shaped_of_sameAlpha [OF assms]
  by (auto simp: shaped_def)

lemma shaped_ai:
  assumes "shaped w h img"
  shows "\<exists>out. applyAdvancedAIEnhancement img w h = Inr out \<and> shaped w h out"
proof -
  obtain a where a: "applyBilateralFilter img w h 3 25 = Inr a" "shaped w h a"
    using shaped_bilateral [OF assms] by blast
  obtain b where b: "enhanceDetails (applyCLAHE a w h) w h = Inr b" "shaped w h b"
    using shaped_details [OF shaped_clahe [OF a(2)]] by blast
  show ?thesis using a b by (simp add: applyAdvancedAIEnhancement_def shaped_colors)
qed

lemma stage_ok:
  assumes "\<exists>im rep. st = (Inr im, rep) \<and> shaped w h im"
    and "\<And>im. shaped w h im \<Longrightarrow> \<exists>im'. f im = Inr im' \<and> shaped w h im'"
  shows "\<exists>im rep. stage a f m st = (Inr im, rep) \<and> shaped w h im"
proof -
  from assms(1) obtain im rep where st: "st = (Inr im, rep)" and s: "shaped w h im" by blast
  from assms(2) [OF s] obtain im' where "f im = Inr im'" "shaped w h im'" by blast
  then show ?thesis using st s by (simp add: stage_def)
qed

lemma whenE_ok:
  assumes "\<exists>im. r = Inr im \<and> shaped w h im"
    and "\<And>im. shaped w h im \<Longrightarrow> \<exists>im'. f im = Inr im' \<and> shaped w h im'"
  shows "\<exists>im. whenE a f r = Inr im \<and> shaped w h im"
proof -
  from assms(1) obtain im where st: "r = Inr im" and s: "shaped w h im" by blast
  from assms(2) [OF s] obtain im' where "f im = Inr im'" "shaped w h im'" by blast
  then show ?thesis using st s by (simp add: whenE_def)
qed

lemma getImageData_ok:
  "0 < w \<Longrightarrow> 0 < h \<Longrightarrow> length canvas = 4 * w * h \<Longrightarrow>
   \<exists>im. getImageData canvas w h = Inr im \<and> shaped w h im"
  by (simp add: getImageData_def shaped_def valid_def)

lemma processImage_succeeds:
  fixes img :: ImageData and draw settings
  defines "scale \<equiv> (if width img * height img < 1000000
                   then min 2 (1500 / real (max (width img) (height img))) else 1)"
  defines "w \<equiv> nat \<lfloor>real (width img) * scale\<rfloor>"
  defines "h \<equiv> nat \<lfloor>real (height img) * scale\<rfloor>"
  assumes "0 < w" "0 < h" "length (draw img w h) = 4 * w * h"
  shows "\<exists>out rep. processImage True draw img settings = (Inr out, rep) \<and> shaped w h out"
proof -
  have "\<exists>im rep. (getImageData (draw img w h) w h, [10::nat]) = (Inr im, rep) \<and> shaped w h im"
    using getImageData_ok [OF assms(4-6)] by simp
  then show ?thesis
    unfolding processImage_def Let_def scale_def [symmetric] w_def [symmetric] h_def [symmetric]
    apply (simp only: not_True_eq_False if_False)
    apply (intro stage_ok)
          apply assumption
         apply (rule shaped_bilateral, assumption)
        apply (rule shaped_ai, assumption)
       apply (simp add: shaped_tone)
      apply (simp add: shaped_saturation)
     apply (rule shaped_unsharp, assumption)
    apply simp
    done
qed

lemma processImageRealtime_succeeds:
  fixes img :: ImageData and draw settings
  defines "scale \<equiv> min (800 / real (width img)) (min (800 / real (height img)) 1)"
  defines "w \<equiv> nat \<lfloor>real (width img) * scale\<rfloor>"
  defines "h \<equiv> nat \<lfloor>real (height img) * scale\<rfloor>"
  assumes "0 < w" "0 < h" "length (draw img w h) = 4 * w * h"
  shows "\<exists>out. processImageRealtime True draw img settings = Inr out \<and> shaped w h out"
proof -
  have "\<exists>im. getImageData (draw img w h) w h = Inr im \<and> shaped w h im"
    using getImageData_ok [OF assms(4-6)] by simp
  then show ?thesis
    unfolding processImageRealtime_def Let_def scale_def [symmetric] w_def [symmetric] h_def [symmetric]
    apply (simp only: not_True_eq_False if_False)
    apply (intro whenE_ok)
         apply assumption
        apply (rule shaped_bilateral, assumption)
       apply (simp add: shaped_tone)
      apply (simp add: shaped_saturation)
     apply (rule shaped_unsharp, assumption)
    apply (rule shaped_ai, assumption)
    done
qed

section \<open>In-place loops over the pixels\<close>

lemma length_concat_map4:
  "(\<And>p. length (G p) = 4) \<Longrightarrow> length (concat (map G xs)) = 4 * length xs"
  by (induction xs) auto

lemma nth_concat_map4:
  assumes "\<And>p. length (G p) = 4"
  shows "p < n \<Longrightarrow> c < 4 \<Longrightarrow> concat (map G [0..<n]) ! (4 * p + c) = G p ! c"
proof (induction n)
  case 0
  then show ?case by simp
next
  case (Suc n)
  have len: "length (concat (map G [0..<n])) = 4 * n"
    using length_concat_map4 [of G "[0..<n]", OF assms] by simp
  show ?case
  proof (cases "p < n")
    case True
    then have "4 * p + c < 4 * n" using Suc.prems(2) by simp
    then show ?thesis using Suc.IH [OF True Suc.prems(2)] len by (simp add: nth_append)
  next
    case False
    then have "p = n" using Suc.prems(1) by simp
    then show ?thesis using len by (simp add: nth_append)
  qed
qed

lemma drop4:
  assumes "i + 4 \<le> length d"
  shows "drop i d = d ! i # d ! (i + 1) # d ! (i + 2) # d ! (i + 3) # drop (i + 4) d"
proof -
  have "drop i d = d ! i # drop (Suc i) d" using assms by (simp add: Cons_nth_drop_Suc)
  also have "drop (Suc i) d = d ! (i + 1) # drop (Suc (Suc i)) d"
    using assms by (simp add: Cons_nth_drop_Suc)
  also have "drop (Suc (Suc i)) d = d ! (i + 2) # drop (Suc (Suc (Suc i))) d"
    using assms by (simp add: Cons_nth_drop_Suc)
  also have "drop (Suc (Suc (Suc i))) d = d ! (i + 3) # drop (i + 4) d"
    using assms Cons_nth_drop_Suc [of "i + 3" d] by (simp add: numeral_eq_Suc)
  finally show ?thesis .
qed

lemma rgb_step_append:
  assumes step: "\<And>i s. step i s = s[i := F0 (s ! i) (s ! (i + 1)) (s ! (i + 2)),
                                    i + 1 := F1 (s ! i) (s ! (i + 1)) (s ! (i + 2)),
                                    i + 2 := F2 (s ! i) (s ! (i + 1)) (s ! (i + 2))]"
    and len: "length A = i"
  shows "step i (A @ a # b # c # e # R) = A @ [F0 a b c, F1 a b c, F2 a b c, e] @ R"
  by (subst step) (simp add: nth_append list_update_append len [symmetric])

lemma inplace_rgb_prefix:
  assumes step: "\<And>i s. step i s = s[i := F0 (s ! i) (s ! (i + 1)) (s ! (i + 2)),
                                    i + 1 := F1 (s ! i) (s ! (i + 1)) (s ! (i + 2)),
                                    i + 2 := F2 (s ! i) (s ! (i + 1)) (s ! (i + 2))]"
  shows "4 * k \<le> length d \<Longrightarrow>
     fold step (map (\<lambda>p. 4 * p) [0..<k]) d =
     concat (map (\<lambda>p. [F0 (d ! (4 * p)) (d ! (4 * p + 1)) (d ! (4 * p + 2)),
                        F1 (d ! (4 * p)) (d ! (4 * p + 1)) (d ! (4 * p + 2)),
                        F2 (d ! (4 * p)) (d ! (4 * p + 1)) (d ! (4 * p + 2)),
                        d ! (4 * p + 3)]) [0..<k]) @ drop (4 * k) d"
proof (induction k)
  case 0
  then show ?case by simp
next
  case (Suc k)
  let ?G = "\<lambda>p. [F0 (d ! (4 * p)) (d ! (4 * p + 1)) (d ! (4 * p + 2)),
                        F1 (d ! (4 * p)) (d ! (4 * p + 1)) (d ! (4 * p + 2)),
                        F2 (d ! (4 * p)) (d ! (4 * p + 1)) (d ! (4 * p + 2)),
                        d ! (4 * p + 3)]"
  let ?A = "concat (map ?G [0..<k])"
  have lenA: "length ?A = 4 * k"
    using length_concat_map4 [of ?G "[0..<k]"] by simp
  have k4: "4 * k + 4 \<le> length d" using Suc.prems by simp
  have B: "drop (4 * k) d = d ! (4 * k) # d ! (4 * k + 1) # d ! (4 * k + 2) # d ! (4 * k + 3)
                            # drop (4 * k + 4) d"
    by (rule drop4 [OF k4])
  have "fold step (map (\<lambda>p. 4 * p) [0..<Suc k]) d = step (4 * k) (?A @ drop (4 * k) d)"
    using Suc.IH Suc.prems by simp
  also have "\<dots> = ?A @ ?G k @ drop (4 * k + 4) d"
    by (subst B) (rule rgb_step_append [of step F0 F1 F2, OF step lenA])
  finally have "fold step (map (\<lambda>p. 4 * p) [0..<Suc k]) d = ?A @ ?G k @ drop (4 * k + 4) d" .
  moreover have "4 * k + 4 = 4 * Suc k" by simp
  moreover have "concat (map ?G [0..<Suc k]) = ?A @ ?G k" by simp
  ultimately show ?case by (simp only: append_assoc)
qed

lemma inplace_rgb_fold:
  assumes step: "\<And>i s. step i s = s[i := F0 (s ! i) (s ! (i + 1)) (s ! (i + 2)),
                                    i + 1 := F1 (s ! i) (s ! (i + 1)) (s ! (i + 2)),
                                    i + 2 := F2 (s ! i) (s ! (i + 1)) (s ! (i + 2))]"
    and len: "length d = 4 * n"
  shows "fold step (pixelOffsets d) d =
     concat (map (\<lambda>p. [F0 (d ! (4 * p)) (d ! (4 * p + 1)) (d ! (4 * p + 2)),
                        F1 (d ! (4 * p)) (d ! (4 * p + 1)) (d ! (4 * p + 2)),
                        F2 (d ! (4 * p)) (d ! (4 * p + 1)) (d ! (4 * p + 2)),
                        d ! (4 * p + 3)]) [0..<n])"
proof -
  have "(length d + 3) div 4 = n" using len by simp
  then have "pixelOffsets d = map (\<lambda>p. 4 * p) [0..<n]" by (simp add: pixelOffsets_def)
  then show ?thesis
    using inplace_rgb_prefix [of step F0 F1 F2 n d, OF step] len by simp
qed

section \<open>Runs on a uniform image\<close>

lemma tone_step:
  "fold (\<lambda>ch d. d[i + ch := toneSample b c (val d (i + ch))]) [0..<3] s =
   s[i := toneSample b c (real (unat (s ! i))),
     i + 1 := toneSample b c (real (unat (s ! (i + 1)))),
     i + 2 := toneSample b c (real (unat (s ! (i + 2))))]"
  by (simp add: upt_0_3 val_def)

lemma tone_data:
  assumes "length (data img) = 4 * n"
  shows "data (applyAdvancedToneMapping img b c) =
     concat (map (\<lambda>p. [toneSample b c (real (unat (data img ! (4 * p)))),
                        toneSample b c (real (unat (data img ! (4 * p + 1)))),
                        toneSample b c (real (unat (data img ! (4 * p + 2)))),
                        data img ! (4 * p + 3)]) [0..<n])"
  unfolding data_applyAdvancedToneMapping
  by (rule inplace_rgb_fold [where ?F0.0 = "\<lambda>x y z. toneSample b c (real (unat x))"
        and ?F1.0 = "\<lambda>x y z. toneSample b c (real (unat y))"
        and ?F2.0 = "\<lambda>x y z. toneSample b c (real (unat z))", OF tone_step assms])

lemma uniform_nth:
  assumes "p < n" "c < 4"
  shows "concat (replicate n [r, g, b, a]) ! (4 * p + c) = [r, g, b, a] ! c"
proof -
  have "replicate n [r, g, b, a] = map (\<lambda>p. [r, g, b, a]) [0..<n]"
    by (simp add: map_replicate_const)
  then show ?thesis using nth_concat_map4 [of "\<lambda>p. [r, g, b, a]" p n c] assms by simp
qed

lemma uniform_length: "length (concat (replicate n [r, g, b, a])) = 4 * n"
  by (simp add: length_concat sum_list_replicate)

lemma tone_uniform:
  "data (applyAdvancedToneMapping (uniformImage w h [r, g, b, a]) br c) =
   concat (replicate (w * h) [toneSample br c (real (unat r)), toneSample br c (real (unat g)),
                              toneSample br c (real (unat b)), a])"
proof -
  let ?d = "concat (replicate (w * h) [r, g, b, a])"
  let ?T = "\<lambda>x. toneSample br c (real (unat x))"
  have d: "data (uniformImage w h [r, g, b, a]) = ?d" by (simp add: uniformImage_def)
  have "map (\<lambda>p. [?T (?d ! (4 * p)), ?T (?d ! (4 * p + 1)), ?T (?d ! (4 * p + 2)), ?d ! (4 * p + 3)])
            [0..<w * h]
      = map (\<lambda>p. [?T r, ?T g, ?T b, a]) [0..<w * h]"
  proof (rule map_cong [OF refl])
    fix p assume "p \<in> set [0..<w * h]"
    then have p: "p < w * h" by simp
    have "?d ! (4 * p + 0) = r" "?d ! (4 * p + 1) = g" "?d ! (4 * p + 2) = b" "?d ! (4 * p + 3) = a"
      using uniform_nth [OF p, of 0 r g b a] uniform_nth [OF p, of 1 r g b a]
        uniform_nth [OF p, of 2 r g b a] uniform_nth [OF p, of 3 r g b a] by simp_all
    then show "[?T (?d ! (4 * p)), ?T (?d ! (4 * p + 1)), ?T (?d ! (4 * p + 2)), ?d ! (4 * p + 3)]
        = [?T r, ?T g, ?T b, a]" by simp
  qed
  then show ?thesis
    unfolding d tone_data [of "uniformImage w h [r, g, b, a]" "w * h" br c, unfolded d, OF uniform_length]
    by (simp add: map_replicate_const)
qed

lemma roundHalfEven_near:
  assumes "real_of_int n - 1 / 2 < x" and "x < real_of_int n + 1 / 2"
  shows "roundHalfEven x = n"
proof (cases "x < real_of_int n")
  case True
  then have "\<lfloor>x\<rfloor> = n - 1" using assms by (intro floor_unique) simp_all
  then show ?thesis using assms True by (simp add: roundHalfEven_def Let_def)
next
  case False
  then have "\<lfloor>x\<rfloor> = n" using assms by (intro floor_unique) simp_all
  then show ?thesis using assms False by (simp add: roundHalfEven_def Let_def)
qed

lemma powr_three_halves: "0 \<le> x \<Longrightarrow> x powr (3 / 2) = x * sqrt x"
proof -
  assume x: "0 \<le> x"
  have "x powr (3 / 2) = x powr (1 + 1 / 2)" by simp
  also have "\<dots> = x powr 1 * x powr (1 / 2)" by (rule powr_add)
  also have "\<dots> = x * sqrt x" using x by (simp add: powr_half_sqrt)
  finally show ?thesis .
qed

lemma sqrt_128_255: "181 / 256 < sqrt (128 / 255 :: real)" "sqrt (128 / 255 :: real) < 183 / 256"
proof -
  have "(181 / 256 :: real)\<^sup>2 < 128 / 255" by (simp add: power2_eq_square)
  then show "181 / 256 < sqrt (128 / 255 :: real)" by (rule real_less_rsqrt)
  have "(128 / 255 :: real) < (183 / 256)\<^sup>2" by (simp add: power2_eq_square)
  then show "sqrt (128 / 255 :: real) < 183 / 256" by (intro real_less_lsqrt) simp_all
qed

lemma toneSample_128: "toneSample 50 0 128 = 91"
proof -
  let ?x = "js_pow (128 / 255) (1 + 50 / 100) * 255 :: real"
  have x: "?x = 128 * sqrt (128 / 255)"
    using powr_three_halves [of "128 / 255"] by (simp add: js_pow_def)
  have lo: "181 / 2 < ?x" and hi: "?x < 183 / 2"
    using sqrt_128_255 unfolding x by simp_all
  have "roundHalfEven ?x = 91" using lo hi by (intro roundHalfEven_near) simp_all
  moreover have "min 255 (max 0 ?x) = ?x" using lo hi by simp
  moreover have "\<not> ?x \<le> 0" "\<not> 255 \<le> ?x" using lo hi by simp_all
  ultimately have "toUint8Clamp (min 255 (max 0 ?x)) = 91"
    by (simp only: toUint8Clamp_def if_False) simp
  then show ?thesis
    by (simp add: toneSample_def applySCurve_def Let_def)
qed

lemma uniform_dims [simp]:
  "width (uniformImage w h px) = w" "height (uniformImage w h px) = h"
  by (simp_all add: uniformImage_def)

lemma uniform_chunk:
  assumes "k < n"
  shows "take 4 (drop (k * 4) (concat (replicate n [r, g, b, a]))) = [r, g, b, a]"
proof -
  let ?d = "concat (replicate n [r, g, b, a])"
  have "4 * k + 4 \<le> length ?d" using assms by (simp add: uniform_length)
  from drop4 [OF this]
  have "take 4 (drop (4 * k) ?d) = [?d ! (4 * k + 0), ?d ! (4 * k + 1), ?d ! (4 * k + 2), ?d ! (4 * k + 3)]"
    by simp
  also have "\<dots> = [r, g, b, a]"
    using uniform_nth [OF assms, of 0 r g b a] uniform_nth [OF assms, of 1 r g b a]
      uniform_nth [OF assms, of 2 r g b a] uniform_nth [OF assms, of 3 r g b a]
    by (simp only: nth_Cons_0 nth_Cons_Suc nth_Cons_numeral One_nat_def) simp
  finally show ?thesis by (simp add: mult.commute)
qed

lemma coords_set: "(y, x) \<in> set (coords w h) \<longleftrightarrow> y < h \<and> x < w"
  by (auto simp: coords_def image_iff)

lemma coords_length: "length (coords w h) = w * h"
  by (simp add: coords_def length_concat comp_def sum_list_triv)

lemma nearestNeighbour_uniform:
  assumes "0 < W" "0 < H"
  shows "nearestNeighbour (uniformImage W H [r, g, b, a]) w h = data (uniformImage w h [r, g, b, a])"
proof -
  let ?d = "concat (replicate (W * H) [r, g, b, a])"
  have "map (\<lambda>(y, x). let sy = y * H div h; sx = x * W div w
                        in take 4 (drop ((sy * W + sx) * 4) ?d)) (coords w h)
      = map (\<lambda>p. [r, g, b, a]) (coords w h)"
  proof (rule map_cong [OF refl])
    fix p assume p: "p \<in> set (coords w h)"
    obtain y x where yx: "p = (y, x)" by (cases p)
    with p have "y < h" "x < w" by (simp_all add: coords_set)
    then have a: "y * H < H * h" and b: "x * W < W * w" using assms by simp_all
    have sy: "y * H div h < H" by (rule less_mult_imp_div_less [OF a])
    have sx: "x * W div w < W" by (rule less_mult_imp_div_less [OF b])
    have lt: "(y * H div h) * W + x * W div w < W * H"
    proof -
      have "(y * H div h) * W + x * W div w < (y * H div h) * W + W" using sx by simp
      also have "\<dots> = (y * H div h + 1) * W" by simp
      also have "\<dots> \<le> H * W" using sy by (intro mult_le_mono1) simp
      finally show ?thesis by (simp add: mult.commute)
    qed
    show "(case p of (y, x) \<Rightarrow> let sy = y * H div h; sx = x * W div w
                        in take 4 (drop ((sy * W + sx) * 4) ?d)) = [r, g, b, a]"
      unfolding yx prod.case Let_def by (rule uniform_chunk [OF lt])
  qed
  then show ?thesis
    by (simp add: nearestNeighbour_def uniformImage_def map_replicate_const coords_length)
qed

lemma getImageData_uniform:
  "0 < w \<Longrightarrow> 0 < h \<Longrightarrow> getImageData (data (uniformImage w h px)) w h = Inr (uniformImage w h px)"
  by (simp add: getImageData_def uniformImage_def)

lemma tone_uniform_image:
  "applyAdvancedToneMapping (uniformImage w h [r, g, b, a]) br c =
   uniformImage w h [toneSample br c (real (unat r)), toneSample br c (real (unat g)),
                     toneSample br c (real (unat b)), a]"
  by (rule ImageData.equality)
     (simp_all add: tone_uniform dims_inplace, simp_all add: uniformImage_def applyAdvancedToneMapping_def)

lemma final_dims_100:
  "nat \<lfloor>real (100::nat) * (if (100::nat) * 100 < 1000000
                   then min 2 (1500 / real (max (100::nat) 100)) else 1)\<rfloor> = 200"
  by simp

lemma preview_dims_100:
  "nat \<lfloor>real (100::nat) * min (800 / real (100::nat)) (min (800 / real (100::nat)) 1)\<rfloor> = 100"
  by simp

lemma processImage_uniform_zero:
  assumes "draw (uniformImage 100 100 px) 200 200 = data (uniformImage 200 200 px)"
  shows "processImage True draw (uniformImage 100 100 px)
           \<lparr>sharpening = 0, denoising = 0, brightness = 0, contrast = 0, saturation = 0, useAI = False\<rparr>
         = (Inr (uniformImage 200 200 px), [10, 100])"
  by (simp add: processImage_def Let_def final_dims_100 assms getImageData_uniform stage_def)

lemma processImageRealtime_uniform_zero:
  assumes "draw (uniformImage 100 100 px) 100 100 = data (uniformImage 100 100 px)"
  shows "processImageRealtime True draw (uniformImage 100 100 px)
           \<lparr>sharpening = 0, denoising = 0, brightness = 0, contrast = 0, saturation = 0, useAI = False\<rparr>
         = Inr (uniformImage 100 100 px)"
  by (simp add: processImageRealtime_def Let_def preview_dims_100 assms getImageData_uniform whenE_def)

lemma processImage_uniform_b50:
  "processImage True nearestNeighbour (uniformImage 100 100 [128, 128, 128, 255])
           \<lparr>sharpening = 0, denoising = 0, brightness = 50, contrast = 0, saturation = 0, useAI = False\<rparr>
         = (Inr (uniformImage 200 200 [91, 91, 91, 255]), [10, 65, 100])"
  by (simp add: processImage_def Let_def final_dims_100 nearestNeighbour_uniform
        getImageData_uniform stage_def tone_uniform_image toneSample_128)

lemma processImageRealtime_uniform_b50:
  "processImageRealtime True nearestNeighbour (uniformImage 100 100 [128, 128, 128, 255])
           \<lparr>sharpening = 0, denoising = 0, brightness = 50, contrast = 0, saturation = 0, useAI = False\<rparr>
         = Inr (uniformImage 100 100 [91, 91, 91, 255])"
  by (simp add: processImageRealtime_def Let_def preview_dims_100 nearestNeighbour_uniform
        getImageData_uniform whenE_def tone_uniform_image toneSample_128)

lemma uniform_data_length: "length (data (uniformImage w h [r, g, b, a])) = 4 * (w * h)"
  by (simp add: uniformImage_def uniform_length)

text \<open>
  Claim C7. When a full-quality run succeeds, the values passed to the progress callback
  are exactly 10, then 25 if \<open>denoising > 0\<close>, 50 if \<open>useAI\<close>, 65 if \<open>brightness \<noteq> 0\<close> or
  \<open>contrast \<noteq> 0\<close>, 80 if \<open>saturation \<noteq> 0\<close>, 95 if \<open>sharpening > 0\<close>, in this order, then 100.
  The sequence is non-decreasing, starts at 10 and ends at 100.
\<close>

theorem final_progress_sequence:
  assumes "processImage ctx draw img settings = (Inr out, reported)"
  shows "reported = expectedProgress settings \<and> sorted reported
       \<and> hd reported = 10 \<and> last reported = 100"
  using processImage_reported [OF assms] expectedProgress_sorted [of settings]
    expectedProgress_ends [of settings]
  by simp

theorem final_progress_sequence_witness:
  "\<not> isl (fst (processImage True nearestNeighbour (uniformImage 2 2 [128, 128, 128, 255])
        \<lparr>sharpening = 40, denoising = 30, brightness = 5, contrast = 15, saturation = 10,
         useAI = True\<rparr>))
   \<and> snd (processImage True nearestNeighbour (uniformImage 2 2 [128, 128, 128, 255])
        \<lparr>sharpening = 40, denoising = 30, brightness = 5, contrast = 15, saturation = 10,
         useAI = True\<rparr>) = [10, 25, 50, 65, 80, 95, 100]"
proof -
  let ?img = "uniformImage 2 2 [128, 128, 128, 255]"
  let ?s = "\<lparr>sharpening = 40, denoising = 30, brightness = 5, contrast = 15, saturation = 10,
         useAI = True\<rparr>"
  have "\<exists>out rep. processImage True nearestNeighbour ?img ?s = (Inr out, rep) \<and> shaped 4 4 out"
    using processImage_succeeds [of ?img nearestNeighbour ?s]
    by (simp add: nearestNeighbour_uniform uniform_data_length)
  then obtain out rep where run: "processImage True nearestNeighbour ?img ?s = (Inr out, rep)"
    by blast
  have "rep = expectedProgress ?s" using final_progress_sequence [OF run] by blast
  then have "rep = [10, 25, 50, 65, 80, 95, 100]" by (simp add: expectedProgress_def)
  then show ?thesis using run by simp
qed

text \<open>
  Claim C3, as the code has it. With all settings at zero and \<open>useAI\<close> off no filter stage
  runs, and the output is the raster the canvas holds. The preview leaves a 100 by 100
  image at its size, so its output is the input. The full-quality run first draws an image
  of less than 1000000 pixels at twice its size (at most 1500 pixels a side): its output is
  the 200 by 200 raster, which for a scaler that draws a uniform image uniformly is the
  uniform image of the same colour.
\<close>

theorem zero_settings_uniform:
  assumes "\<forall>w h. draw (uniformImage 100 100 px) w h = data (uniformImage w h px)"
  shows "processImageRealtime True draw (uniformImage 100 100 px)
           \<lparr>sharpening = 0, denoising = 0, brightness = 0, contrast = 0, saturation = 0, useAI = False\<rparr>
         = Inr (uniformImage 100 100 px)
       \<and> processImage True draw (uniformImage 100 100 px)
           \<lparr>sharpening = 0, denoising = 0, brightness = 0, contrast = 0, saturation = 0, useAI = False\<rparr>
         = (Inr (uniformImage 200 200 px), [10, 100])"
  using assms processImage_uniform_zero [of draw px] processImageRealtime_uniform_zero [of draw px]
  by simp

theorem zero_settings_uniform_witness:
  "(\<forall>w h. nearestNeighbour (uniformImage 100 100 [128, 128, 128, 255]) w h
          = data (uniformImage w h [128, 128, 128, 255]))
   \<and> processImageRealtime True nearestNeighbour (uniformImage 100 100 [128, 128, 128, 255])
           \<lparr>sharpening = 0, denoising = 0, brightness = 0, contrast = 0, saturation = 0, useAI = False\<rparr>
         = Inr (uniformImage 100 100 [128, 128, 128, 255])"
proof -
  have d: "\<forall>w h. nearestNeighbour (uniformImage 100 100 [128, 128, 128, 255]) w h
          = data (uniformImage w h [128, 128, 128, 255])"
    by (simp add: nearestNeighbour_uniform)
  then show ?thesis
    using zero_settings_uniform [of nearestNeighbour "[128, 128, 128, 255]"] by blast
qed

text \<open>
  The full-quality run of claim C3 returns 200 by 200 pixels, not the 100 by 100 input.
\<close>

theorem final_mode_resizes_counterexample:
  "processImage True nearestNeighbour (uniformImage 100 100 [128, 128, 128, 255])
           \<lparr>sharpening = 0, denoising = 0, brightness = 0, contrast = 0, saturation = 0, useAI = False\<rparr>
     = (Inr (uniformImage 200 200 [128, 128, 128, 255]), [10, 100])
   \<and> uniformImage 200 200 [128, 128, 128, 255] \<noteq> uniformImage 100 100 [128, 128, 128, 255]"
proof -
  have "uniformImage 200 200 [128, 128, 128, 255] \<noteq> uniformImage 100 100 [128, 128, 128, 255]"
  proof
    assume "uniformImage 200 200 [128, 128, 128, 255] = uniformImage 100 100 [128, 128, 128, 255]"
    then have "width (uniformImage 200 200 [128, 128, 128, 255])
        = width (uniformImage 100 100 [128, 128, 128, 255])"
      by (rule arg_cong)
    then show False by simp
  qed
  then show ?thesis
    by (simp add: processImage_uniform_zero nearestNeighbour_uniform)
qed

text \<open>
  Claim C1 at its input: the uniform (128, 128, 128) opaque image of 100 by 100 pixels with
  \<open>brightness = 50\<close> and every other setting off. The tone mapper raises the normalised
  sample to the power \<open>1 + brightness / 100 = 1.5\<close>, which for a base below 1 lowers it:
  both modes return the uniform image of value 91, below 128.
\<close>

theorem brightness_50_darkens:
  "processImageRealtime True nearestNeighbour (uniformImage 100 100 [128, 128, 128, 255])
           \<lparr>sharpening = 0, denoising = 0, brightness = 50, contrast = 0, saturation = 0, useAI = False\<rparr>
     = Inr (uniformImage 100 100 [91, 91, 91, 255])
   \<and> processImage True nearestNeighbour (uniformImage 100 100 [128, 128, 128, 255])
           \<lparr>sharpening = 0, denoising = 0, brightness = 50, contrast = 0, saturation = 0, useAI = False\<rparr>
     = (Inr (uniformImage 200 200 [91, 91, 91, 255]), [10, 65, 100])"
  using processImageRealtime_uniform_b50 processImage_uniform_b50 by (rule conjI)

theorem brightness_50_darkens_witness:
  "fst (processImage True nearestNeighbour (uniformImage 100 100 [128, 128, 128, 255])
           \<lparr>sharpening = 0, denoising = 0, brightness = 50, contrast = 0, saturation = 0, useAI = False\<rparr>)
     = Inr (uniformImage 200 200 [91, 91, 91, 255])
   \<and> unat (91 :: sample) < 128"
  using brightness_50_darkens by simp

section \<open>The histogram of a tile\<close>

lemma sum_list_update_real:
  "i < length xs \<Longrightarrow> sum_list (xs[i := v]) = sum_list xs - xs ! i + (v :: real)"
proof (induction xs arbitrary: i)
  case Nil
  then show ?case by simp
next
  case (Cons x xs)
  then show ?case by (cases i) auto
qed

lemma luminance_bound: "luminance d idx < 256"
proof -
  have u: "real (unat (x :: sample)) \<le> 255" for x
  proof -
    have "unat x < 2 ^ LENGTH(8)" by (rule unsigned_less)
    then have "unat x \<le> 255" by simp
    then have "real (unat x) \<le> real 255" by (rule iffD2 [OF of_nat_le_iff])
    then show ?thesis by simp
  qed
  define v where "v = 0.299 * val d idx + 0.587 * val d (idx + 1) + 0.114 * val d (idx + 2)"
  have "v \<le> 0.299 * 255 + 0.587 * 255 + 0.114 * 255"
    unfolding v_def val_def by (intro add_mono mult_left_mono u) simp_all
  then have "v + 1 / 2 < real_of_int 256" by simp
  then have "\<lfloor>v + 1 / 2\<rfloor> < 256" by (rule iffD2 [OF floor_less_iff])
  moreover define f where "f = \<lfloor>v + 1 / 2\<rfloor>"
  ultimately have "f < 256" by simp
  then have "nat f < 256" by simp
  then show ?thesis unfolding luminance_def js_round_def v_def f_def .
qed

lemma luminanceHistogram_total:
  "length (luminanceHistogram d idxs) = 256 \<and> sum_list (luminanceHistogram d idxs) = real (length idxs)"
proof -
  have "length (fold (\<lambda>idx histogram. histogram[luminance d idx := histogram ! luminance d idx + 1])
                    idxs h) = 256
      \<and> sum_list (fold (\<lambda>idx histogram. histogram[luminance d idx := histogram ! luminance d idx + 1])
                    idxs h) = sum_list h + real (length idxs)"
    if "length h = 256" for h :: "real list"
    using that
  proof (induction idxs arbitrary: h)
    case Nil
    then show ?case by simp
  next
    case (Cons a idxs)
    let ?h = "h[luminance d a := h ! luminance d a + 1]"
    have l: "length ?h = 256" using Cons.prems by simp
    have "sum_list ?h = sum_list h + 1"
      using luminance_bound [of d a] Cons.prems by (simp add: sum_list_update_real)
    then show ?case using Cons.IH [OF l] by simp
  qed
  from this [of "replicate 256 0"] show ?thesis
    by (simp add: luminanceHistogram_def sum_list_replicate)
qed

lemma clip_step:
  "(if hist ! i > clipValue
    then (hist[i := clipValue], excess + (hist ! i - clipValue))
    else (hist, excess))
   = (hist[i := min (hist ! i) clipValue], excess + (hist ! i - min (hist ! i) (clipValue :: real)))"
  by (simp add: min_def)

lemma clip_fun:
  "(\<lambda>i (hist, excess).
             if hist ! i > clipValue
             then (hist[i := clipValue], excess + (hist ! i - clipValue))
             else (hist, excess))
   = (\<lambda>i (hist, excess). (hist[i := min (hist ! i) clipValue],
                            excess + (hist ! i - min (hist ! i) (clipValue :: real))))"
  by (intro ext) (simp add: split_def clip_step)

lemma clip_prefix:
  "k \<le> length h \<Longrightarrow>
   fold (\<lambda>i (hist, excess). (hist[i := min (hist ! i) clipValue],
                            excess + (hist ! i - min (hist ! i) (clipValue :: real))))
        [0..<k] (h, e)
   = (map (\<lambda>x. min x clipValue) (take k h) @ drop k h,
      e + sum_list (map (\<lambda>x. x - min x clipValue) (take k h)))"
proof (induction k)
  case 0
  then show ?case by simp
next
  case (Suc k)
  let ?A = "map (\<lambda>x. min x clipValue) (take k h)"
  have k: "k < length h" using Suc.prems by simp
  have lenA: "length ?A = k" using k by simp
  have nth: "(?A @ drop k h) ! k = h ! k" using k by (simp add: nth_append)
  have upd: "(?A @ drop k h)[k := v] = ?A @ v # drop (Suc k) h" for v
    using k lenA by (simp add: list_update_append Cons_nth_drop_Suc [symmetric])
  have tk: "take (Suc k) h = take k h @ [h ! k]" using k by (simp add: take_Suc_conv_app_nth)
  show ?case
    using Suc.IH k by (simp add: nth upd tk)
qed

lemma clipHistogram_eq:
  assumes "length h = 256"
  shows "clipHistogram clipValue h =
     (map (\<lambda>x. min x clipValue) h, sum_list (map (\<lambda>x. x - min x clipValue) h))"
  using clip_prefix [of 256 h clipValue 0] assms by (simp add: clipHistogram_def clip_fun)

lemma update_prefix:
  "k \<le> length h \<Longrightarrow>
   fold (\<lambda>i hist. hist[i := f (hist ! i)]) [0..<k] h = map f (take k h) @ drop k h"
proof (induction k)
  case 0
  then show ?case by simp
next
  case (Suc k)
  let ?A = "map f (take k h)"
  have k: "k < length h" using Suc.prems by simp
  have lenA: "length ?A = k" using k by simp
  have nth: "(?A @ drop k h) ! k = h ! k" using k by (simp add: nth_append)
  have upd: "(?A @ drop k h)[k := v] = ?A @ v # drop (Suc k) h" for v
    using k lenA by (simp add: list_update_append Cons_nth_drop_Suc [symmetric])
  have tk: "take (Suc k) h = take k h @ [h ! k]" using k by (simp add: take_Suc_conv_app_nth)
  show ?case
    using Suc.IH k by (simp add: nth upd tk)
qed

lemma redistributeExcess_eq:
  assumes "length h = 256"
  shows "redistributeExcess excess h = map (\<lambda>x. x + excess / 256) h"
  using update_prefix [of 256 h "\<lambda>x. x + excess / 256"] assms
  by (simp add: redistributeExcess_def Let_def)

lemma sum_list_map_add_const:
  "sum_list (map (\<lambda>x. x + c) xs) = sum_list xs + real (length xs) * (c :: real)"
  by (induction xs) (auto simp: algebra_simps)

lemma sum_list_clip:
  "sum_list (map (\<lambda>x. min x c) xs) + sum_list (map (\<lambda>x. x - min x c) xs) = sum_list (xs :: real list)"
  by (induction xs) auto

lemma cumulative_prefix:
  assumes "length h = N"
  shows "Suc m \<le> N \<Longrightarrow>
     length (fold (\<lambda>i cdf. cdf[i := cdf ! (i - 1) + h ! i]) [1..<Suc m]
                  ((replicate N (0::real))[0 := h ! 0])) = N
     \<and> (\<forall>k\<le>m. fold (\<lambda>i cdf. cdf[i := cdf ! (i - 1) + h ! i]) [1..<Suc m]
                  ((replicate N 0)[0 := h ! 0]) ! k = sum_list (take (Suc k) h))"
proof (induction m)
  case 0
  then have "take (Suc 0) h = [h ! 0]" using assms by (cases h) simp_all
  then show ?case using 0 by simp
next
  case (Suc m)
  let ?c = "fold (\<lambda>i cdf. cdf[i := cdf ! (i - 1) + h ! i]) [1..<Suc m]
                  ((replicate N (0::real))[0 := h ! 0])"
  from Suc have len: "length ?c = N"
    and ih: "\<And>k. k \<le> m \<Longrightarrow> ?c ! k = sum_list (take (Suc k) h)" by simp_all
  have step: "fold (\<lambda>i cdf. cdf[i := cdf ! (i - 1) + h ! i]) [1..<Suc (Suc m)]
                  ((replicate N (0::real))[0 := h ! 0]) = ?c[Suc m := ?c ! m + h ! Suc m]"
    by simp
  have tk: "take (Suc (Suc m)) h = take (Suc m) h @ [h ! Suc m]"
    using Suc.prems assms by (simp add: take_Suc_conv_app_nth)
  have "(?c[Suc m := ?c ! m + h ! Suc m]) ! k = sum_list (take (Suc k) h)" if "k \<le> Suc m" for k
  proof (cases "k = Suc m")
    case True
    then show ?thesis using len Suc.prems ih [of m] tk by simp
  next
    case False
    then show ?thesis using that ih [of k] by simp
  qed
  then show ?case unfolding step using len by simp
qed

lemma cumulative_last:
  assumes "length h = 256"
  shows "cumulative h ! 255 = sum_list h"
proof -
  have "Suc 255 \<le> (256::nat)" by simp
  from cumulative_prefix [OF assms this]
  have "cumulative h ! 255 = sum_list (take (Suc 255) h)"
    by (simp add: cumulative_def)
  then show ?thesis using assms by simp
qed

text \<open>
  Claim C4. For every buffer and every tile of the local-contrast enhancer (every list of
  pixel offsets), capping each of the 256 bins of the tile's histogram at
  \<open>clipValue = 3.0 * pixelCount / 256\<close> and adding \<open>excess / 256\<close> to every bin keeps the
  total: the bins sum to \<open>pixelCount\<close>, and the last entry \<open>cdf[255]\<close> of the cumulative
  distribution is \<open>pixelCount\<close>, in exact arithmetic.
\<close>

theorem clahe_mass_conserved:
  "let histogram = luminanceHistogram d idxs;
       pixelCount = real (length idxs);
       clipValue = (3.0 * pixelCount) / 256;
       (clipped, excess) = clipHistogram clipValue histogram;
       redistributed = redistributeExcess excess clipped
   in length redistributed = 256
    \<and> (\<forall>i \<in> {0..<256}. clipped ! i = min (histogram ! i) clipValue)
    \<and> (\<forall>i \<in> {0..<256}. redistributed ! i = clipped ! i + excess / 256)
    \<and> sum_list redistributed = pixelCount
    \<and> tileCdf d idxs ! 255 = pixelCount"
proof -
  define histogram where "histogram = luminanceHistogram d idxs"
  define clipValue where "clipValue = (3.0 * real (length idxs)) / 256"
  define clipped where "clipped = map (\<lambda>x. min x clipValue) histogram"
  define excess where "excess = sum_list (map (\<lambda>x. x - min x clipValue) histogram)"
  define redistributed where "redistributed = map (\<lambda>x. x + excess / 256) clipped"
  have h: "length histogram = 256" "sum_list histogram = real (length idxs)"
    using luminanceHistogram_total [of d idxs] by (simp_all add: histogram_def)
  have c: "clipHistogram clipValue histogram = (clipped, excess)"
    by (simp add: clipHistogram_eq [OF h(1)] clipped_def excess_def)
  have lc: "length clipped = 256" using h(1) by (simp add: clipped_def)
  have r: "redistributeExcess excess clipped = redistributed"
    by (simp add: redistributeExcess_eq [OF lc] redistributed_def)
  have lr: "length redistributed = 256" using lc by (simp add: redistributed_def)
  have "sum_list redistributed = sum_list clipped + excess"
    using lc by (simp add: redistributed_def sum_list_map_add_const)
  also have "\<dots> = sum_list histogram"
    unfolding clipped_def excess_def by (rule sum_list_clip)
  finally have total: "sum_list redistributed = real (length idxs)" using h(2) by simp
  have cdf: "tileCdf d idxs = cumulative redistributed"
    unfolding tileCdf_def Let_def histogram_def [symmetric] clipValue_def [symmetric] c prod.case r
    by (rule refl)
  have last: "tileCdf d idxs ! 255 = real (length idxs)"
    unfolding cdf using cumulative_last [OF lr] total by simp
  have p1: "\<forall>i \<in> {0..<256}. clipped ! i = min (histogram ! i) clipValue"
    using h(1) by (simp add: clipped_def)
  have p2: "\<forall>i \<in> {0..<256}. redistributed ! i = clipped ! i + excess / 256"
    using lc by (simp add: redistributed_def)
  show ?thesis
    unfolding Let_def histogram_def [symmetric] clipValue_def [symmetric] c r prod.case
    using lr p1 p2 total last by blast
qed

theorem clahe_mass_conserved_witness:
  "tileCdf [10, 20, 30, 255, 200, 100, 50, 255] (tileIndices 2 0 0 2 1) ! 255 = 2"
proof -
  have "length (tileIndices 2 0 0 2 1) = 2" by (simp add: tileIndices_def)
  then show ?thesis
    using clahe_mass_conserved [of "[10, 20, 30, 255, 200, 100, 50, 255]" "tileIndices 2 0 0 2 1"]
    by (simp add: Let_def split_def)
qed

section \<open>The saturation adjuster\<close>

lemma hsl_chroma:
  fixes mx mn :: real
  assumes "mn < mx" "0 \<le> mn" "mx \<le> 1"
  shows "(1 - \<bar>2 * ((mx + mn) / 2) - 1\<bar>)
          * min 1 (max 0 ((if (mx + mn) / 2 > 0.5 then (mx - mn) / (2 - (mx + mn))
                           else (mx - mn) / (mx + mn)) * 1)) = mx - mn"
proof (cases "(mx + mn) / 2 > 0.5")
  case True
  define q where "q = (mx - mn) / (2 - (mx + mn))"
  have d: "0 < 2 - (mx + mn)" using assms by simp
  have "q \<le> 1" "0 \<le> q" using d assms by (simp_all add: q_def divide_le_eq)
  then have A: "min 1 (max 0 (q * 1)) = q" by simp
  have two: "2 * ((mx + mn) / 2) = mx + mn" by simp
  have "1 - \<bar>mx + mn - 1\<bar> = 2 - (mx + mn)" using True by simp
  then have B: "1 - \<bar>2 * ((mx + mn) / 2) - 1\<bar> = 2 - (mx + mn)" by (simp only: two)
  have "(1 - \<bar>2 * ((mx + mn) / 2) - 1\<bar>)
          * min 1 (max 0 ((if (mx + mn) / 2 > 0.5 then (mx - mn) / (2 - (mx + mn))
                           else (mx - mn) / (mx + mn)) * 1)) = (2 - (mx + mn)) * q"
    by (simp only: True if_True q_def [symmetric] A B)
  also have "\<dots> = mx - mn" using d by (simp add: q_def)
  finally show ?thesis .
next
  case False
  define q where "q = (mx - mn) / (mx + mn)"
  have d: "0 < mx + mn" using assms by simp
  have "q \<le> 1" "0 \<le> q" using d assms by (simp_all add: q_def divide_le_eq)
  then have A: "min 1 (max 0 (q * 1)) = q" by simp
  have two: "2 * ((mx + mn) / 2) = mx + mn" by simp
  have "1 - \<bar>mx + mn - 1\<bar> = mx + mn" using False by simp
  then have B: "1 - \<bar>2 * ((mx + mn) / 2) - 1\<bar> = mx + mn" by (simp only: two)
  have "(1 - \<bar>2 * ((mx + mn) / 2) - 1\<bar>)
          * min 1 (max 0 ((if (mx + mn) / 2 > 0.5 then (mx - mn) / (2 - (mx + mn))
                           else (mx - mn) / (mx + mn)) * 1)) = (mx + mn) * q"
    by (simp only: False if_False q_def [symmetric] A B)
  also have "\<dots> = mx - mn" using d by (simp add: q_def)
  finally show ?thesis .
qed

lemma fmod_lt2: "0 \<le> t \<Longrightarrow> t < 2 \<Longrightarrow> js_fmod t 2 = t"
proof -
  assume a: "0 \<le> t" "t < 2"
  then have "\<lfloor>t / 2\<rfloor> = 0" by (intro floor_unique) simp_all
  then show ?thesis using a by (simp add: js_fmod_def)
qed

lemma fmod_lt4: "2 \<le> t \<Longrightarrow> t < 4 \<Longrightarrow> js_fmod t 2 = t - 2"
proof -
  assume a: "2 \<le> t" "t < 4"
  then have "\<lfloor>t / 2\<rfloor> = 1" by (intro floor_unique) simp_all
  then show ?thesis using a by (simp add: js_fmod_def)
qed

lemma fmod_lt6: "4 \<le> t \<Longrightarrow> t < 6 \<Longrightarrow> js_fmod t 2 = t - 4"
proof -
  assume a: "4 \<le> t" "t < 6"
  then have "\<lfloor>t / 2\<rfloor> = 2" by (intro floor_unique) simp_all
  then show ?thesis using a by (simp add: js_fmod_def)
qed

lemma hslAdjust_one:
  fixes r g b :: real
  assumes mx: "max r (max g b) = mx" and mn: "min r (min g b) = mn"
    and lt: "mn < mx" and lo: "0 \<le> mn" and hi: "mx \<le> 1"
  shows "hslAdjust 1 r g b =
    (let t = (if mx = r then ((g - b) / (mx - mn) + (if g < b then 6 else 0)) / 6
               else if mx = g then ((b - r) / (mx - mn) + 2) / 6
               else if mx = b then ((r - g) / (mx - mn) + 4) / 6
               else 0) * 6;
         c = mx - mn;
         x = c * (1 - \<bar>js_fmod t 2 - 1\<bar>);
         (rPrime, gPrime, bPrime) =
            (if \<lfloor>t\<rfloor> = 0 then (c, x, 0)
             else if \<lfloor>t\<rfloor> = 1 then (x, c, 0)
             else if \<lfloor>t\<rfloor> = 2 then (0, c, x)
             else if \<lfloor>t\<rfloor> = 3 then (0, x, c)
             else if \<lfloor>t\<rfloor> = 4 then (x, 0, c)
             else if \<lfloor>t\<rfloor> = 5 then (c, 0, x)
             else (0, 0, 0))
     in ((rPrime + mn) * 255, (gPrime + mn) * 255, (bPrime + mn) * 255))"
proof -
  have c: "(1 - \<bar>2 * ((mx + mn) / 2) - 1\<bar>)
          * min 1 (max 0 ((if (mx + mn) / 2 > 0.5 then (mx - mn) / (2 - (mx + mn))
                           else (mx - mn) / (mx + mn)) * 1)) = mx - mn"
    by (rule hsl_chroma [OF lt lo hi])
  have m: "(mx + mn) / 2 - (mx - mn) / 2 = mn" by (simp add: field_simps)
  show ?thesis
    unfolding hslAdjust_def Let_def mx mn c m ..
qed

lemma hslAdjust_at:
  fixes r g b :: real
  assumes mx: "max r (max g b) = mx" and mn: "min r (min g b) = mn"
    and lt: "mn < mx" and lo: "0 \<le> mn" and hi: "mx \<le> 1"
    and T: "(if mx = r then ((g - b) / (mx - mn) + (if g < b then 6 else 0)) / 6
               else if mx = g then ((b - r) / (mx - mn) + 2) / 6
               else if mx = b then ((r - g) / (mx - mn) + 4) / 6
               else 0) * 6 = t"
    and fl: "\<lfloor>t\<rfloor> = k" and fm: "(mx - mn) * (1 - \<bar>js_fmod t 2 - 1\<bar>) = x"
  shows "hslAdjust 1 r g b =
    (case (if k = 0 then (mx - mn, x, 0)
             else if k = 1 then (x, mx - mn, 0)
             else if k = 2 then (0, mx - mn, x)
             else if k = 3 then (0, x, mx - mn)
             else if k = 4 then (x, 0, mx - mn)
             else if k = 5 then (mx - mn, 0, x)
             else (0, 0, 0)) of
       (rPrime, gPrime, bPrime) \<Rightarrow> ((rPrime + mn) * 255, (gPrime + mn) * 255, (bPrime + mn) * 255))"
  by (simp only: hslAdjust_one [OF mx mn lt lo hi] Let_def T fl fm)

lemma div6: "x / 6 * 6 = (x :: real)"
  by simp

lemma hslAdjust_id:
  fixes r g b :: real
  assumes r: "0 \<le> r" "r \<le> 1" and g: "0 \<le> g" "g \<le> 1" and b: "0 \<le> b" "b \<le> 1"
    and ne: "max r (max g b) - min r (min g b) \<noteq> 0"
  shows "hslAdjust 1 r g b = (r * 255, g * 255, b * 255)"
proof -
  consider
      (A1a) "b \<le> g" "g < r"
    | (A1b) "b < g" "g = r"
    | (A2) "g < b" "b \<le> r"
    | (B1) "b < r" "r < g"
    | (B2a) "r \<le> b" "b < g"
    | (B2b) "r < b" "b = g"
    | (C1) "r < g" "g < b"
    | (C2) "g \<le> r" "r < b"
    using ne by fastforce
  then show ?thesis
  proof cases
    case A1a
    let ?t = "(g - b) / (r - b)"
    have mx: "max r (max g b) = r" and mn: "min r (min g b) = b" using A1a by simp_all
    have lt: "b < r" using A1a by simp
    have T: "(if r = r then ((g - b) / (r - b) + (if g < b then 6 else 0)) / 6
               else if r = g then ((b - r) / (r - b) + 2) / 6
               else if r = b then ((r - g) / (r - b) + 4) / 6
               else 0) * 6 = ?t"
    proof -
      have f: "(g < b) = False" using A1a by simp_all
      show ?thesis by (simp only: f simp_thms if_True if_False div6 add_0_right one_add_one numeral_plus_numeral) (simp?)
    qed
    have t: "0 \<le> ?t" "?t < 1" using A1a by simp_all
    have fl: "\<lfloor>?t\<rfloor> = 0" using t by (intro floor_unique) simp_all
    have "js_fmod ?t 2 = ?t" using t by (intro fmod_lt2) simp_all
    then have fm: "(r - b) * (1 - \<bar>js_fmod ?t 2 - 1\<bar>) = g - b" using t lt by simp
    note res = hslAdjust_at [OF mx mn lt b(1) r(2) T fl fm]
    show ?thesis
      using res by simp
  next
    case A1b
    have mx: "max r (max g b) = r" and mn: "min r (min g b) = b" using A1b by simp_all
    have lt: "b < r" using A1b by simp
    have T: "(if r = r then ((g - b) / (r - b) + (if g < b then 6 else 0)) / 6
               else if r = g then ((b - r) / (r - b) + 2) / 6
               else if r = b then ((r - g) / (r - b) + 4) / 6
               else 0) * 6 = 1"
    proof -
      have f: "(g < b) = False" "(g - b) / (r - b) = 1" using A1b by simp_all
      show ?thesis by (simp only: f simp_thms if_True if_False div6 add_0_right one_add_one numeral_plus_numeral) (simp?)
    qed
    have fl: "\<lfloor>1 :: real\<rfloor> = 1" by simp
    have "js_fmod 1 2 = 1" by (intro fmod_lt2) simp_all
    then have fm: "(r - b) * (1 - \<bar>js_fmod 1 2 - 1\<bar>) = r - b" by simp
    note res = hslAdjust_at [OF mx mn lt b(1) r(2) T fl fm]
    show ?thesis
      using A1b res by simp
  next
    case A2
    let ?t = "(g - b) / (r - g) + 6"
    have mx: "max r (max g b) = r" and mn: "min r (min g b) = g" using A2 by simp_all
    have lt: "g < r" using A2 by simp
    have T: "(if r = r then ((g - b) / (r - g) + (if g < b then 6 else 0)) / 6
               else if r = g then ((b - r) / (r - g) + 2) / 6
               else if r = b then ((r - g) / (r - g) + 4) / 6
               else 0) * 6 = ?t"
    proof -
      have f: "(g < b) = True" using A2 by simp_all
      show ?thesis by (simp only: f simp_thms if_True if_False div6 add_0_right one_add_one numeral_plus_numeral) (simp?)
    qed
    have q: "- 1 \<le> (g - b) / (r - g)" "(g - b) / (r - g) < 0"
      using A2 lt by (simp_all add: le_divide_eq divide_less_eq)
    then have t: "5 \<le> ?t" "?t < 6" by simp_all
    have fl: "\<lfloor>?t\<rfloor> = 5" using t by (intro floor_unique) simp_all
    have "js_fmod ?t 2 = ?t - 4" using t by (intro fmod_lt6) simp_all
    then have "(r - g) * (1 - \<bar>js_fmod ?t 2 - 1\<bar>) = (r - g) * (- ((g - b) / (r - g)))"
      using q by simp
    also have "\<dots> = b - g" using lt by simp
    finally have fm: "(r - g) * (1 - \<bar>js_fmod ?t 2 - 1\<bar>) = b - g" .
    note res = hslAdjust_at [OF mx mn lt g(1) r(2) T fl fm]
    show ?thesis
      using res by simp
  next
    case B1
    let ?t = "(b - r) / (g - b) + 2"
    have mx: "max r (max g b) = g" and mn: "min r (min g b) = b" using B1 by simp_all
    have lt: "b < g" using B1 by simp
    have T: "(if g = r then ((g - b) / (g - b) + (if g < b then 6 else 0)) / 6
               else if g = g then ((b - r) / (g - b) + 2) / 6
               else if g = b then ((r - g) / (g - b) + 4) / 6
               else 0) * 6 = ?t"
    proof -
      have f: "(g = r) = False" using B1 by simp_all
      show ?thesis by (simp only: f simp_thms if_True if_False div6 add_0_right one_add_one numeral_plus_numeral) (simp?)
    qed
    have q: "- 1 < (b - r) / (g - b)" "(b - r) / (g - b) < 0"
      using B1 lt by (simp_all add: less_divide_eq divide_less_eq)
    then have t: "1 < ?t" "?t < 2" by simp_all
    have fl: "\<lfloor>?t\<rfloor> = 1" using t by (intro floor_unique) simp_all
    have "js_fmod ?t 2 = ?t" using t by (intro fmod_lt2) simp_all
    then have "(g - b) * (1 - \<bar>js_fmod ?t 2 - 1\<bar>) = (g - b) * (- ((b - r) / (g - b)))"
      using q by simp
    also have "\<dots> = r - b" using lt by simp
    finally have fm: "(g - b) * (1 - \<bar>js_fmod ?t 2 - 1\<bar>) = r - b" .
    note res = hslAdjust_at [OF mx mn lt b(1) g(2) T fl fm]
    show ?thesis
      using res by simp
  next
    case B2a
    let ?t = "(b - r) / (g - r) + 2"
    have mx: "max r (max g b) = g" and mn: "min r (min g b) = r" using B2a by simp_all
    have lt: "r < g" using B2a by simp
    have T: "(if g = r then ((g - b) / (g - r) + (if g < b then 6 else 0)) / 6
               else if g = g then ((b - r) / (g - r) + 2) / 6
               else if g = b then ((r - g) / (g - r) + 4) / 6
               else 0) * 6 = ?t"
    proof -
      have f: "(g = r) = False" using B2a by simp_all
      show ?thesis by (simp only: f simp_thms if_True if_False div6 add_0_right one_add_one numeral_plus_numeral) (simp?)
    qed
    have q: "0 \<le> (b - r) / (g - r)" "(b - r) / (g - r) < 1"
      using B2a lt by simp_all
    then have t: "2 \<le> ?t" "?t < 3" by simp_all
    have fl: "\<lfloor>?t\<rfloor> = 2" using t by (intro floor_unique) simp_all
    have "js_fmod ?t 2 = ?t - 2" using t by (intro fmod_lt4) simp_all
    then have "(g - r) * (1 - \<bar>js_fmod ?t 2 - 1\<bar>) = (g - r) * ((b - r) / (g - r))"
      using q by simp
    also have "\<dots> = b - r" using lt by simp
    finally have fm: "(g - r) * (1 - \<bar>js_fmod ?t 2 - 1\<bar>) = b - r" .
    note res = hslAdjust_at [OF mx mn lt r(1) g(2) T fl fm]
    show ?thesis
      using res by simp
  next
    case B2b
    have mx: "max r (max g b) = g" and mn: "min r (min g b) = r" using B2b by simp_all
    have lt: "r < g" using B2b by simp
    have T: "(if g = r then ((g - b) / (g - r) + (if g < b then 6 else 0)) / 6
               else if g = g then ((b - r) / (g - r) + 2) / 6
               else if g = b then ((r - g) / (g - r) + 4) / 6
               else 0) * 6 = 3"
    proof -
      have f: "(g = r) = False" "(b - r) / (g - r) = 1" using B2b by simp_all
      show ?thesis by (simp only: f simp_thms if_True if_False div6 add_0_right one_add_one numeral_plus_numeral) (simp?)
    qed
    have fl: "\<lfloor>3 :: real\<rfloor> = 3" by simp
    have "js_fmod 3 2 = 3 - 2" by (intro fmod_lt4) simp_all
    then have fm: "(g - r) * (1 - \<bar>js_fmod 3 2 - 1\<bar>) = g - r" by simp
    note res = hslAdjust_at [OF mx mn lt r(1) g(2) T fl fm]
    show ?thesis
      using B2b res by simp
  next
    case C1
    let ?t = "(r - g) / (b - r) + 4"
    have mx: "max r (max g b) = b" and mn: "min r (min g b) = r" using C1 by simp_all
    have lt: "r < b" using C1 by simp
    have T: "(if b = r then ((g - b) / (b - r) + (if g < b then 6 else 0)) / 6
               else if b = g then ((b - r) / (b - r) + 2) / 6
               else if b = b then ((r - g) / (b - r) + 4) / 6
               else 0) * 6 = ?t"
    proof -
      have f: "(b = r) = False" "(b = g) = False" using C1 by simp_all
      show ?thesis by (simp only: f simp_thms if_True if_False div6 add_0_right one_add_one numeral_plus_numeral) (simp?)
    qed
    have q: "- 1 < (r - g) / (b - r)" "(r - g) / (b - r) < 0"
      using C1 lt by (simp_all add: less_divide_eq divide_less_eq)
    then have t: "3 < ?t" "?t < 4" by simp_all
    have fl: "\<lfloor>?t\<rfloor> = 3" using t by (intro floor_unique) simp_all
    have "js_fmod ?t 2 = ?t - 2" using t by (intro fmod_lt4) simp_all
    then have "(b - r) * (1 - \<bar>js_fmod ?t 2 - 1\<bar>) = (b - r) * (- ((r - g) / (b - r)))"
      using q by simp
    also have "\<dots> = g - r" using lt by simp
    finally have fm: "(b - r) * (1 - \<bar>js_fmod ?t 2 - 1\<bar>) = g - r" .
    note res = hslAdjust_at [OF mx mn lt r(1) b(2) T fl fm]
    show ?thesis
      using res by simp
  next
    case C2
    let ?t = "(r - g) / (b - g) + 4"
    have mx: "max r (max g b) = b" and mn: "min r (min g b) = g" using C2 by simp_all
    have lt: "g < b" using C2 by simp
    have T: "(if b = r then ((g - b) / (b - g) + (if g < b then 6 else 0)) / 6
               else if b = g then ((b - r) / (b - g) + 2) / 6
               else if b = b then ((r - g) / (b - g) + 4) / 6
               else 0) * 6 = ?t"
    proof -
      have f: "(b = r) = False" "(b = g) = False" using C2 by simp_all
      show ?thesis by (simp only: f simp_thms if_True if_False div6 add_0_right one_add_one numeral_plus_numeral) (simp?)
    qed
    have q: "0 \<le> (r - g) / (b - g)" "(r - g) / (b - g) < 1"
      using C2 lt by simp_all
    then have t: "4 \<le> ?t" "?t < 5" by simp_all
    have fl: "\<lfloor>?t\<rfloor> = 4" using t by (intro floor_unique) simp_all
    have "js_fmod ?t 2 = ?t - 4" using t by (intro fmod_lt6) simp_all
    then have "(b - g) * (1 - \<bar>js_fmod ?t 2 - 1\<bar>) = (b - g) * ((r - g) / (b - g))"
      using q by simp
    also have "\<dots> = r - g" using lt by simp
    finally have fm: "(b - g) * (1 - \<bar>js_fmod ?t 2 - 1\<bar>) = r - g" .
    note res = hslAdjust_at [OF mx mn lt g(1) b(2) T fl fm]
    show ?thesis
      using res by simp
  qed
qed

lemma toUint8Clamp_nat:
  assumes "n < 256"
  shows "toUint8Clamp (real n) = (of_nat n :: sample)"
proof (cases "n = 0 \<or> n = 255")
  case True
  then show ?thesis by (auto simp: toUint8Clamp_def)
next
  case False
  then have "\<not> real n \<le> 0" "\<not> 255 \<le> real n" using assms by simp_all
  moreover have "roundHalfEven (real n) = int n"
    by (simp add: roundHalfEven_def Let_def)
  ultimately show ?thesis by (simp add: toUint8Clamp_def)
qed

lemma toUint8Clamp_unat: "toUint8Clamp (min 255 (max 0 (real (unat (x :: sample))))) = x"
proof -
  define n where "n = unat x"
  have "unat x < 2 ^ LENGTH(8)" by (rule unsigned_less)
  then have n: "n < 256" by (simp add: n_def)
  then have "min 255 (max 0 (real n)) = real n" by simp
  then have "toUint8Clamp (min 255 (max 0 (real n))) = of_nat n"
    using toUint8Clamp_nat [OF n] by (simp only:)
  then show ?thesis unfolding n_def by simp
qed

lemma concat_pixels:
  "4 * k \<le> length d \<Longrightarrow>
   concat (map (\<lambda>p. [d ! (4 * p), d ! (4 * p + 1), d ! (4 * p + 2), d ! (4 * p + 3)]) [0..<k])
   = take (4 * k) d"
proof (induction k)
  case 0
  then show ?case by simp
next
  case (Suc k)
  have k4: "4 * k + 4 \<le> length d" using Suc.prems by simp
  have "take (4 * Suc k) d = take (4 * k) d @ take 4 (drop (4 * k) d)"
    by (simp add: take_add [symmetric] add.commute)
  also have "take 4 (drop (4 * k) d) = [d ! (4 * k), d ! (4 * k + 1), d ! (4 * k + 2), d ! (4 * k + 3)]"
    by (subst drop4 [OF k4]) simp
  finally show ?case using Suc by simp
qed

lemma saturatePixel_rgb:
  "saturatePixel factor i s =
     s[i := (if max (real (unat (s ! i)) / 255) (max (real (unat (s ! (i + 1))) / 255) (real (unat (s ! (i + 2))) / 255))
               - min (real (unat (s ! i)) / 255) (min (real (unat (s ! (i + 1))) / 255) (real (unat (s ! (i + 2))) / 255)) = 0
             then s ! i
             else toUint8Clamp (min 255 (max 0 (fst (hslAdjust factor (real (unat (s ! i)) / 255)
                     (real (unat (s ! (i + 1))) / 255) (real (unat (s ! (i + 2))) / 255)))))),
       i + 1 := (if max (real (unat (s ! i)) / 255) (max (real (unat (s ! (i + 1))) / 255) (real (unat (s ! (i + 2))) / 255))
               - min (real (unat (s ! i)) / 255) (min (real (unat (s ! (i + 1))) / 255) (real (unat (s ! (i + 2))) / 255)) = 0
             then s ! (i + 1)
             else toUint8Clamp (min 255 (max 0 (fst (snd (hslAdjust factor (real (unat (s ! i)) / 255)
                     (real (unat (s ! (i + 1))) / 255) (real (unat (s ! (i + 2))) / 255))))))),
       i + 2 := (if max (real (unat (s ! i)) / 255) (max (real (unat (s ! (i + 1))) / 255) (real (unat (s ! (i + 2))) / 255))
               - min (real (unat (s ! i)) / 255) (min (real (unat (s ! (i + 1))) / 255) (real (unat (s ! (i + 2))) / 255)) = 0
             then s ! (i + 2)
             else toUint8Clamp (min 255 (max 0 (snd (snd (hslAdjust factor (real (unat (s ! i)) / 255)
                     (real (unat (s ! (i + 1))) / 255) (real (unat (s ! (i + 2))) / 255)))))))]"
  (is "_ = s[i := (if ?c then _ else ?u), i + 1 := (if ?c then _ else ?v), i + 2 := (if ?c then _ else ?w)]")
proof (cases ?c)
  case True
  have "s[i := s ! i, i + 1 := s ! (i + 1), i + 2 := s ! (i + 2)] = s"
    by (simp add: list_update_same_conv nth_update_cases)
  moreover have "saturatePixel factor i s = s"
    unfolding saturatePixel_def Let_def split_def val_def by (simp only: True if_True simp_thms)
  ultimately show ?thesis by (simp only: True if_True simp_thms)
next
  case False
  have "saturatePixel factor i s = s[i := ?u, i + 1 := ?v, i + 2 := ?w]"
    unfolding saturatePixel_def Let_def split_def val_def by (simp only: False if_False)
  then show ?thesis by (simp only: False if_False)
qed

lemma saturation_fold:
  fixes factor :: real
  defines "D \<equiv> \<lambda>x y z :: sample.
              max (real (unat x) / 255) (max (real (unat y) / 255) (real (unat z) / 255))
            - min (real (unat x) / 255) (min (real (unat y) / 255) (real (unat z) / 255))"
  defines "H \<equiv> \<lambda>x y z :: sample.
              hslAdjust factor (real (unat x) / 255) (real (unat y) / 255) (real (unat z) / 255)"
  assumes len: "length d = 4 * n"
  shows "fold (saturatePixel factor) (pixelOffsets d) d =
     concat (map (\<lambda>p. [if D (d ! (4 * p)) (d ! (4 * p + 1)) (d ! (4 * p + 2)) = 0 then d ! (4 * p)
                        else toUint8Clamp (min 255 (max 0 (fst (H (d ! (4 * p)) (d ! (4 * p + 1)) (d ! (4 * p + 2)))))),
                        if D (d ! (4 * p)) (d ! (4 * p + 1)) (d ! (4 * p + 2)) = 0 then d ! (4 * p + 1)
                        else toUint8Clamp (min 255 (max 0 (fst (snd (H (d ! (4 * p)) (d ! (4 * p + 1)) (d ! (4 * p + 2))))))),
                        if D (d ! (4 * p)) (d ! (4 * p + 1)) (d ! (4 * p + 2)) = 0 then d ! (4 * p + 2)
                        else toUint8Clamp (min 255 (max 0 (snd (snd (H (d ! (4 * p)) (d ! (4 * p + 1)) (d ! (4 * p + 2))))))),
                        d ! (4 * p + 3)]) [0..<n])"
proof -
  have step: "\<And>i s. saturatePixel factor i s =
      s[i := (\<lambda>x y z. if D x y z = 0 then x else toUint8Clamp (min 255 (max 0 (fst (H x y z)))))
               (s ! i) (s ! (i + 1)) (s ! (i + 2)),
        i + 1 := (\<lambda>x y z. if D x y z = 0 then y else toUint8Clamp (min 255 (max 0 (fst (snd (H x y z))))))
               (s ! i) (s ! (i + 1)) (s ! (i + 2)),
        i + 2 := (\<lambda>x y z. if D x y z = 0 then z else toUint8Clamp (min 255 (max 0 (snd (snd (H x y z))))))
               (s ! i) (s ! (i + 1)) (s ! (i + 2))]"
    unfolding D_def H_def by (rule saturatePixel_rgb)
  show ?thesis
    by (rule inplace_rgb_fold [OF step len, THEN trans]) (rule refl)
qed

lemma unit_sample: "0 \<le> real (unat (x :: sample)) / 255" "real (unat (x :: sample)) / 255 \<le> 1"
proof -
  define n where "n = unat x"
  have "unat x < 2 ^ LENGTH(8)" by (rule unsigned_less)
  then have "n < 256" by (simp add: n_def)
  then have "0 \<le> real n / 255" "real n / 255 \<le> 1" by simp_all
  then show "0 \<le> real (unat x) / 255" "real (unat x) / 255 \<le> 1" unfolding n_def .
qed

lemma hslAdjust_samples:
  fixes x y z :: sample
  assumes "max (real (unat x) / 255) (max (real (unat y) / 255) (real (unat z) / 255))
            - min (real (unat x) / 255) (min (real (unat y) / 255) (real (unat z) / 255)) \<noteq> 0"
  shows "hslAdjust 1 (real (unat x) / 255) (real (unat y) / 255) (real (unat z) / 255)
       = (real (unat x), real (unat y), real (unat z))"
proof -
  have "hslAdjust 1 (real (unat x) / 255) (real (unat y) / 255) (real (unat z) / 255)
       = (real (unat x) / 255 * 255, real (unat y) / 255 * 255, real (unat z) / 255 * 255)"
    by (rule hslAdjust_id [OF unit_sample unit_sample unit_sample assms])
  then show ?thesis by simp
qed

lemma saturation_zero_data:
  assumes len: "length d = 4 * n"
  shows "fold (saturatePixel 1) (pixelOffsets d) d = d"
proof -
  have "map (\<lambda>p. [if max (real (unat (d ! (4 * p))) / 255) (max (real (unat (d ! (4 * p + 1))) / 255) (real (unat (d ! (4 * p + 2))) / 255))
            - min (real (unat (d ! (4 * p))) / 255) (min (real (unat (d ! (4 * p + 1))) / 255) (real (unat (d ! (4 * p + 2))) / 255)) = 0 then d ! (4 * p)
                        else toUint8Clamp (min 255 (max 0 (fst (hslAdjust 1 (real (unat (d ! (4 * p))) / 255) (real (unat (d ! (4 * p + 1))) / 255) (real (unat (d ! (4 * p + 2))) / 255))))),
                        if max (real (unat (d ! (4 * p))) / 255) (max (real (unat (d ! (4 * p + 1))) / 255) (real (unat (d ! (4 * p + 2))) / 255))
            - min (real (unat (d ! (4 * p))) / 255) (min (real (unat (d ! (4 * p + 1))) / 255) (real (unat (d ! (4 * p + 2))) / 255)) = 0 then d ! (4 * p + 1)
                        else toUint8Clamp (min 255 (max 0 (fst (snd (hslAdjust 1 (real (unat (d ! (4 * p))) / 255) (real (unat (d ! (4 * p + 1))) / 255) (real (unat (d ! (4 * p + 2))) / 255)))))),
                        if max (real (unat (d ! (4 * p))) / 255) (max (real (unat (d ! (4 * p + 1))) / 255) (real (unat (d ! (4 * p + 2))) / 255))
            - min (real (unat (d ! (4 * p))) / 255) (min (real (unat (d ! (4 * p + 1))) / 255) (real (unat (d ! (4 * p + 2))) / 255)) = 0 then d ! (4 * p + 2)
                        else toUint8Clamp (min 255 (max 0 (snd (snd (hslAdjust 1 (real (unat (d ! (4 * p))) / 255) (real (unat (d ! (4 * p + 1))) / 255) (real (unat (d ! (4 * p + 2))) / 255)))))),
                        d ! (4 * p + 3)]) [0..<n]
     = map (\<lambda>p. [d ! (4 * p), d ! (4 * p + 1), d ! (4 * p + 2), d ! (4 * p + 3)]) [0..<n]"
    (is "map ?G _ = map ?I _")
  proof (rule map_cong [OF refl])
    fix p
    show "?G p = ?I p"
    proof (cases "max (real (unat (d ! (4 * p))) / 255) (max (real (unat (d ! (4 * p + 1))) / 255) (real (unat (d ! (4 * p + 2))) / 255))
            - min (real (unat (d ! (4 * p))) / 255) (min (real (unat (d ! (4 * p + 1))) / 255) (real (unat (d ! (4 * p + 2))) / 255)) = 0")
      case True
      then show ?thesis by (simp only: if_True simp_thms)
    next
      case False
      show ?thesis
        by (simp only: False if_False hslAdjust_samples [OF False] fst_conv snd_conv toUint8Clamp_unat)
    qed
  qed
  then have "fold (saturatePixel 1) (pixelOffsets d) d = concat (map ?I [0..<n])"
    by (simp only: saturation_fold [OF len])
  also have "\<dots> = take (4 * n) d" using len by (intro concat_pixels) simp
  finally show ?thesis using len by simp
qed

lemma nth_concat_quads:
  "p < n \<Longrightarrow> c < 4 \<Longrightarrow>
   concat (map (\<lambda>q. [A q, B q, C q, E q]) [0..<n]) ! (4 * p + c) = [A p, B p, C p, E p] ! c"
  by (rule nth_concat_map4) simp

lemma saturation_gray_pixel:
  assumes len: "length d = 4 * n" and p: "p < n" and c: "c < 4"
    and gray: "d ! (4 * p) = d ! (4 * p + 1)" "d ! (4 * p + 1) = d ! (4 * p + 2)"
  shows "fold (saturatePixel factor) (pixelOffsets d) d ! (4 * p + c) = d ! (4 * p + c)"
proof -
  let ?x = "real (unat (d ! (4 * p + 2))) / 255"
  have D: "max ?x (max ?x ?x) - min ?x (min ?x ?x) = 0" by simp
  have "fold (saturatePixel factor) (pixelOffsets d) d ! (4 * p + c)
      = [d ! (4 * p), d ! (4 * p + 1), d ! (4 * p + 2), d ! (4 * p + 3)] ! c"
    unfolding saturation_fold [OF len]
    by (subst nth_concat_quads [OF p c]) (simp only: gray D if_True simp_thms)
  also have "\<dots> = d ! (4 * p + c)"
  proof -
    from c consider "c = 0" | "c = 1" | "c = 2" | "c = 3" by linarith
    then show ?thesis by cases simp_all
  qed
  finally show ?thesis .
qed

text \<open>
  Claim C9. For every well-formed image, the saturation adjuster with \<open>saturation = 0\<close>
  (factor 1) returns the image itself: in exact arithmetic the conversion to HSL and back
  gives every sample its own value, so the output is within the rounding the claim allows.
  For every saturation value, a pixel with \<open>R = G = B\<close> keeps its four samples.
\<close>

theorem saturation_properties:
  assumes "valid img"
  shows "applyAdvancedSaturation img 0 = img
    \<and> (\<forall>p \<in> {0..<width img * height img}.
          data img ! (4 * p) = data img ! (4 * p + 1) \<and> data img ! (4 * p + 1) = data img ! (4 * p + 2)
          \<longrightarrow> (\<forall>c \<in> {0..<4}. data (applyAdvancedSaturation img sat) ! (4 * p + c)
                                 = data img ! (4 * p + c)))"
proof -
  have len: "length (data img) = 4 * (width img * height img)"
    using assms by (simp add: valid_def)
  have "data (applyAdvancedSaturation img 0) = data img"
    using saturation_zero_data [OF len] by (simp add: data_applyAdvancedSaturation)
  then have "applyAdvancedSaturation img 0 = img"
    by (intro ImageData.equality) (simp_all add: dims_inplace)
  moreover have "\<forall>p \<in> {0..<width img * height img}.
          data img ! (4 * p) = data img ! (4 * p + 1) \<and> data img ! (4 * p + 1) = data img ! (4 * p + 2)
          \<longrightarrow> (\<forall>c \<in> {0..<4}. data (applyAdvancedSaturation img sat) ! (4 * p + c)
                                 = data img ! (4 * p + c))"
    unfolding data_applyAdvancedSaturation
    using saturation_gray_pixel [OF len] by simp
  ultimately show ?thesis by blast
qed

theorem saturation_properties_witness:
  "valid \<lparr>width = 2, height = 1, data = [200, 100, 50, 255, 90, 90, 90, 255]\<rparr>
   \<and> applyAdvancedSaturation \<lparr>width = 2, height = 1, data = [200, 100, 50, 255, 90, 90, 90, 255]\<rparr> 0
       = \<lparr>width = 2, height = 1, data = [200, 100, 50, 255, 90, 90, 90, 255]\<rparr>
   \<and> data (applyAdvancedSaturation
         \<lparr>width = 2, height = 1, data = [200, 100, 50, 255, 90, 90, 90, 255]\<rparr> 40) ! 4 = 90"
proof -
  let ?img = "\<lparr>width = 2, height = 1, data = [200, 100, 50, 255, 90, 90, 90, 255 :: sample]\<rparr>"
  have v: "valid ?img" by (simp add: valid_def)
  note s = saturation_properties [OF v, of 40]
  from s have a: "applyAdvancedSaturation ?img 0 = ?img" by blast
  from s have "\<forall>p \<in> {0..<width ?img * height ?img}.
          data ?img ! (4 * p) = data ?img ! (4 * p + 1) \<and> data ?img ! (4 * p + 1) = data ?img ! (4 * p + 2)
          \<longrightarrow> (\<forall>c \<in> {0..<4}. data (applyAdvancedSaturation ?img 40) ! (4 * p + c)
                                 = data ?img ! (4 * p + c))" by blast
  then have "data ?img ! (4 * 1) = data ?img ! (4 * 1 + 1) \<and> data ?img ! (4 * 1 + 1) = data ?img ! (4 * 1 + 2)
          \<longrightarrow> (\<forall>c \<in> {0..<4}. data (applyAdvancedSaturation ?img 40) ! (4 * 1 + c)
                                 = data ?img ! (4 * 1 + c))"
    by (rule bspec) simp
  then have "\<forall>c \<in> {0..<4::nat}. data (applyAdvancedSaturation ?img 40) ! (4 * 1 + c)
                                 = data ?img ! (4 * 1 + c)" by simp
  then have "data (applyAdvancedSaturation ?img 40) ! (4 * 1 + 0) = data ?img ! (4 * 1 + 0)"
    by (rule bspec) simp
  then have b: "data (applyAdvancedSaturation ?img 40) ! 4 = 90" by simp
  show ?thesis using v a b by blast
qed

section \<open>Loops that write each pixel once\<close>





section \<open>The resampler\<close>


















lemma exactArithmetic_fmul:
  "fmul exactArithmetic (Finite x) (Finite y) = Finite (x * y)"
  by (simp add: exactArithmetic_def Let_def)



section \<open>The bilateral filter\<close>













lemma upto_empty_neg: "r < 0 \<Longrightarrow> [- r..r] = ([] :: int list)"
  by simp









text \<open>
  The pipeline has the filter over the exact reals (\<open>applyBilateralFilter\<close>). For sigmas
  other than 0 that is the filter above at the arithmetic of the reals, where the sample
  stored is the clamped store of the exact average.
\<close>

lemma exactArithmetic_finite:
  "fadd exactArithmetic (Finite a) (Finite b) = Finite (a + b)"
  "fsub exactArithmetic (Finite a) (Finite b) = Finite (a - b)"
  "b \<noteq> 0 \<Longrightarrow> fdiv exactArithmetic (Finite a) (Finite b) = Finite (a / b)"
  "fneg exactArithmetic (Finite a) = Finite (- a)"
  "fabs exactArithmetic (Finite a) = Finite \<bar>a\<bar>"
  "fexp exactArithmetic (Finite a) = Finite (exp a)"
  by (simp_all add: exactArithmetic_def Let_def)

lemma bilateralWeightD_exact:
  assumes "ss \<noteq> 0" "si \<noteq> 0"
  shows "bilateralWeightD exactArithmetic ss si dx dy (Finite cv) (Finite pv)
       = Finite (bilateralWeight ss si dx dy cv pv)"
proof -
  have s: "2 * ss * ss \<noteq> 0" and i: "2 * si * si \<noteq> 0" using assms by simp_all
  show ?thesis
    unfolding bilateralWeightD_def bilateralWeight_def Let_def
    by (simp only: exactArithmetic_finite exactArithmetic_fmul exactArithmetic_finite(3) [OF s]
          exactArithmetic_finite(3) [OF i])
qed

lemma fold_image:
  assumes "\<And>x a. f x (h a) = h (g x a)"
  shows "fold f xs (h a) = h (fold g xs a)"
  by (induction xs arbitrary: a) (simp_all add: assms)

lemma bilateralSumsD_exact:
  assumes "ss \<noteq> 0" "si \<noteq> 0"
  shows "bilateralSumsD exactArithmetic d w ss si r y x c
       = (\<lambda>(s, ws). (Finite s, Finite ws)) (bilateralSums d w ss si r y x c)"
  unfolding bilateralSumsD_def bilateralSums_def Let_def
proof -
  let ?h = "\<lambda>(s, ws). (Finite s, Finite (ws :: real))"
  let ?cv = "val d (nat ((y * int w + x) * 4 + int c))"
  let ?pv = "\<lambda>dx dy. val d (nat (((y + dy) * int w + (x + dx)) * 4 + int c))"
  let ?stepD = "\<lambda>dy dx. \<lambda>(sum, weightSum).
        (fadd exactArithmetic sum
           (fmul exactArithmetic (Finite (?pv dx dy))
              (bilateralWeightD exactArithmetic ss si dx dy (Finite ?cv) (Finite (?pv dx dy)))),
         fadd exactArithmetic weightSum
           (bilateralWeightD exactArithmetic ss si dx dy (Finite ?cv) (Finite (?pv dx dy))))"
  let ?step = "\<lambda>dy dx. \<lambda>(sum, weightSum).
        (sum + ?pv dx dy * bilateralWeight ss si dx dy ?cv (?pv dx dy),
         weightSum + bilateralWeight ss si dx dy ?cv (?pv dx dy))"
  have one: "?stepD dy dx (?h a) = ?h (?step dy dx a)" for dy dx a
    by (cases a)
       (simp only: prod.case bilateralWeightD_exact [OF assms] exactArithmetic_finite
          exactArithmetic_fmul)
  have inner: "fold (?stepD dy) xs (?h a) = ?h (fold (?step dy) xs a)" for dy xs a
    by (rule fold_image) (rule one)
  have outer: "fold (\<lambda>dy. fold (?stepD dy) xs) ys (?h a) = ?h (fold (\<lambda>dy. fold (?step dy) xs) ys a)"
    for xs ys a
    by (rule fold_image) (rule inner)
  show "fold (\<lambda>dy. fold (?stepD dy) [- r..r]) [- r..r] (Finite 0, Finite 0)
      = ?h (fold (\<lambda>dy. fold (?step dy) [- r..r]) [- r..r] (0, 0))"
    using outer [of "[- r..r]" "[- r..r]" "(0, 0)"] by simp
qed

lemma bilateralPixelD_exact:
  assumes "ss \<noteq> 0" "si \<noteq> 0"
  shows "bilateralPixelD exactArithmetic d w ss si r = bilateralPixel d w ss si r"
proof (intro ext)
  fix p :: "int \<times> int" and s :: "sample list"
  obtain y x where p: "p = (y, x)" by (cases p)
  have v: "(case (\<lambda>(s, ws). (Finite s, Finite ws)) sw of
             (s, ws) \<Rightarrow> wr b i (if positive ws
                                    then storeClamped (fdiv exactArithmetic s ws) else e))
         = (case sw of (s, ws) \<Rightarrow> wr b i (if ws > 0 then toUint8Clamp (s / ws) else e))"
    for sw :: "real \<times> real" and b i e
    by (cases sw) (auto simp add: positive_def storeClamped_def exactArithmetic_finite)
  show "bilateralPixelD exactArithmetic d w ss si r p s = bilateralPixel d w ss si r p s"
    unfolding p bilateralPixelD_def bilateralPixel_def prod.case Let_def
      bilateralSumsD_exact [OF assms] v ..
qed

lemma applyBilateralFilterD_exact:
  assumes "spatialSigma \<noteq> 0" "intensitySigma \<noteq> 0"
  shows "applyBilateralFilterD exactArithmetic img w h spatialSigma intensitySigma
       = applyBilateralFilter img w h spatialSigma intensitySigma"
  unfolding applyBilateralFilterD_def applyBilateralFilter_def bilateralPixelD_exact [OF assms] ..
















end
